theory Spec2Isabelle
  imports Complex_Main
begin

section \<open>Python primitives used by the scripts\<close>

text \<open>
  Python integers are unbounded: they are modelled as \<^typ>\<open>int\<close>. Python's \<open>%\<close> with a
  positive right operand is HOL's \<open>mod\<close> on \<^typ>\<open>int\<close> (the remainder is never negative).

  \<open>range(a, b, s)\<close> with a positive step: the values \<open>a, a + s, a + 2 s, ...\<close> below \<open>b\<close>.
  Every range of the scripts has a positive step (2, 6, or a sieve index that is at least 2).
\<close>

definition py_range :: "int \<Rightarrow> int \<Rightarrow> int \<Rightarrow> int list" where
  "py_range a b s =
     (if 0 < s then map (\<lambda>k. a + int k * s) [0..<nat ((b - a + s - 1) div s)] else [])"

text \<open>
  The exact integer square root, found by a downward search so that it can be evaluated.
  It is the loop bound \<open>int(n ** 0.5)\<close> of the sieve: a table of \<open>n + 1\<close> booleans exists
  only for \<open>n\<close> far below \<open>2 ^ 52\<close>, where the root computed in double precision is the
  exact one.
\<close>

fun sqrt_search :: "nat \<Rightarrow> nat \<Rightarrow> nat" where
  "sqrt_search n 0 = 0"
| "sqrt_search n (Suc r) = (if Suc r * Suc r \<le> n then Suc r else sqrt_search n r)"

definition isqrt :: "int \<Rightarrow> int" where
  "isqrt n = int (sqrt_search (nat n) (nat n))"

text \<open>
  Errors as values. \<open>OverflowError\<close> and \<open>ValueError\<close> are the exceptions Python raises
  in the code below; \<open>InvalidInput\<close> and \<open>OutOfRange\<close> are the errors the specification
  names, which no code raises.
\<close>

datatype error = InvalidInput | OutOfRange | OverflowError | ValueError

text \<open>
  \<open>int(math.sqrt(n))\<close> in the single-number tests, where \<open>n\<close> can be any integer: the
  number is first converted to a double, then the root is taken in double precision and
  truncated.

  \<open>bit_length\<close> is Python's \<open>int.bit_length\<close>. \<open>to_double n\<close> is the value of \<open>float(n)\<close>
  for \<open>n \<ge> 0\<close>, itself an integer: \<open>n\<close> below \<open>2 ^ 53\<close>, else \<open>n\<close> rounded to 53
  significant bits, to nearest and to even on a tie; when the rounded value reaches
  \<open>2 ^ 1024\<close>, that is from \<open>2 ^ 1024 - 2 ^ 970\<close> on, the conversion raises
  \<open>OverflowError\<close>. \<open>sqrt_double x\<close> is \<open>int(math.sqrt(x))\<close> for such a double \<open>x\<close>: the
  root rounded to the nearest double (IEEE 754), then truncated. With \<open>s\<close> the exact
  integer root and \<open>t\<close> its bit length, the doubles around the root are \<open>2 ^ (t - 53)\<close>
  apart; up to \<open>t = 53\<close> the result is \<open>s\<close>, or \<open>s + 1\<close> when the root lies within half a
  step of it, and beyond it is one of the two multiples of the step around \<open>s\<close>.

  \<open>int(n ** 0.5)\<close> of \<open>_trial_division\<close> converts \<open>n\<close> in the same way and raises the same
  \<open>OverflowError\<close>; its root goes through the power function of the C library, whose
  integer part is the same below \<open>2 ^ 52\<close>: the same model stands for it. The tests reach
  the root only for \<open>n \<ge> 3\<close>; on a negative number \<open>math.sqrt\<close> raises \<open>ValueError\<close>.
\<close>

function bit_length :: "int \<Rightarrow> nat" where
  "bit_length n = (if n \<le> 0 then 0 else Suc (bit_length (n div 2)))"
  by pat_completeness auto
termination
  by (relation "measure nat") auto

declare bit_length.simps [simp del]

definition to_double :: "int \<Rightarrow> error + int" where
  "to_double n =
     (if n < 2 ^ 53 then Inr n
      else if 2 ^ 1024 - 2 ^ 970 \<le> n then Inl OverflowError
      else (let e = bit_length n - 53;
                q = n div 2 ^ e;
                r = n mod 2 ^ e;
                h = 2 ^ (e - 1)
            in Inr ((if h < r \<or> (r = h \<and> odd q) then q + 1 else q) * 2 ^ e)))"

definition sqrt_double :: "int \<Rightarrow> int" where
  "sqrt_double x =
     (let s = isqrt x
      in if s * s = x then s
         else (let t = bit_length s
               in if t \<le> 53
                  then (let k = 54 - t
                        in if ((s + 1) * 2 ^ k - 1) ^ 2 < x * 4 ^ k then s + 1 else s)
                  else (let u = 2 ^ (t - 53);
                            a = (s div u) * u
                        in if (a + u div 2) ^ 2 < x then a + u else a)))"

definition float_isqrt :: "int \<Rightarrow> error + int" where
  "float_isqrt n =
     (if n < 0 then Inl ValueError
      else (case to_double n of
              Inl e \<Rightarrow> Inl e
            | Inr x \<Rightarrow> Inr (sqrt_double x)))"

section \<open>Primality, as the specification means it\<close>

text \<open>
  An integer is prime when it is at least 2 and no integer strictly between 1 and itself
  divides it. The bounded form can be evaluated; \<open>is_prime_number_iff\<close> below shows that it
  is the textbook notion (no positive divisor other than 1 and the number itself).
\<close>

definition is_prime_number :: "int \<Rightarrow> bool" where
  "is_prime_number p \<longleftrightarrow> 2 \<le> p \<and> (\<forall>d\<in>{2..p - 1}. \<not> d dvd p)"

section \<open>Single-number primality tests\<close>

text \<open>
  The loop \<open>for i in range(...): if n % i == 0: return False\<close> followed by \<open>return True\<close>:
  the early return is the first branch. A test returns its boolean, or raises what the
  square root raises.
\<close>

fun no_divisor :: "int \<Rightarrow> int list \<Rightarrow> bool" where
  "no_divisor n [] = True"
| "no_divisor n (i # rest) = (if n mod i = 0 then False else no_divisor n rest)"

text \<open>\<open>is_prime_fast\<close> of \<open>dart69_prime_checker.py\<close>, the branch taken without gmpy2.\<close>

definition is_prime_fast :: "int \<Rightarrow> error + bool" where
  "is_prime_fast n =
     (if n < 2 then Inr False
      else if n = 2 then Inr True
      else if n mod 2 = 0 then Inr False
      else (case float_isqrt n of
              Inl e \<Rightarrow> Inl e
            | Inr sqrt_n \<Rightarrow> Inr (no_divisor n (py_range 3 (sqrt_n + 1) 2))))"

text \<open>\<open>PrimeVerificationSuite._trial_division\<close> of \<open>prime_verification_for_Trinity.py\<close>.\<close>

definition trial_division :: "int \<Rightarrow> error + bool" where
  "trial_division n =
     (if n < 2 then Inr False
      else if n = 2 then Inr True
      else if n mod 2 = 0 then Inr False
      else (case float_isqrt n of
              Inl e \<Rightarrow> Inl e
            | Inr r \<Rightarrow> Inr (no_divisor n (py_range 3 (r + 1) 2))))"

text \<open>
  \<open>DART69Sieve.is_prime_basic\<close> of the sieve script: the loop tests \<open>i\<close> and \<open>i + 2\<close> for
  \<open>i = 5, 11, 17, ...\<close> below \<open>int(math.sqrt(n)) + 1\<close>.
\<close>

fun no_divisor_6k :: "int \<Rightarrow> int list \<Rightarrow> bool" where
  "no_divisor_6k n [] = True"
| "no_divisor_6k n (i # rest) =
     (if n mod i = 0 \<or> n mod (i + 2) = 0 then False else no_divisor_6k n rest)"

definition is_prime_basic :: "int \<Rightarrow> error + bool" where
  "is_prime_basic n =
     (if n < 2 then Inr False
      else if n = 2 then Inr True
      else if n mod 2 = 0 then Inr False
      else if n < 9 then Inr True
      else if n mod 3 = 0 then Inr False
      else (case float_isqrt n of
              Inl e \<Rightarrow> Inl e
            | Inr r \<Rightarrow> Inr (let limit = r + 1 in no_divisor_6k n (py_range 5 limit 6))))"

section \<open>The sieve of Eratosthenes\<close>

text \<open>
  \<open>_sieve_of_eratosthenes\<close> of \<open>prime_verification_for_Trinity.py\<close> and
  \<open>sieve_of_eratosthenes\<close> of \<open>trinity_grouping_analysis.py\<close> (the same text). The table
  is a list of booleans; the inner loop \<open>for j in range(i*i, n + 1, i): sieve[j] = False\<close>
  and the outer loop \<open>for i in range(2, int(n**0.5) + 1)\<close> are folds over their ranges.
\<close>

definition strike_multiples :: "int \<Rightarrow> int \<Rightarrow> bool list \<Rightarrow> bool list" where
  "strike_multiples n i sieve =
     fold (\<lambda>j s. s[nat j := False]) (py_range (i * i) (n + 1) i) sieve"

definition sieve_step :: "int \<Rightarrow> int \<Rightarrow> bool list \<Rightarrow> bool list" where
  "sieve_step n i sieve = (if sieve ! nat i then strike_multiples n i sieve else sieve)"

definition sieve_table :: "int \<Rightarrow> bool list" where
  "sieve_table n =
     fold (sieve_step n) (py_range 2 (isqrt n + 1) 1)
       ((replicate (nat (n + 1)) True)[0 := False, 1 := False])"

definition sieve_of_eratosthenes :: "int \<Rightarrow> int list" where
  "sieve_of_eratosthenes n =
     (if n < 2 then []
      else filter (\<lambda>i. sieve_table n ! nat i) (py_range 2 (n + 1) 1))"

text \<open>
  \<open>PrimeVerificationSuite\<close>: the constructor stores the bound, the sieved primes and their
  set. The method \<open>is_prime\<close> looks a number up in the set when it is within the bound and
  falls back to trial division beyond it; \<open>is_prime_call\<close> is the outcome of a call, the
  boolean it returns or the error the fallback raises. The method has no \<open>raise\<close> of its
  own.
\<close>

record prime_verification_suite =
  max_n :: int
  primes :: "int list"
  prime_set :: "int set"

definition init_suite :: "int \<Rightarrow> prime_verification_suite" where
  "init_suite m =
     \<lparr>max_n = m, primes = sieve_of_eratosthenes m, prime_set = set (sieve_of_eratosthenes m)\<rparr>"

definition is_prime_call :: "prime_verification_suite \<Rightarrow> int \<Rightarrow> error + bool" where
  "is_prime_call self n =
     (if n \<le> max_n self then Inr (n \<in> prime_set self) else trial_division n)"

section \<open>The wheel of 69\<close>

text \<open>\<open>get_dart69_position\<close> and \<open>is_forbidden_position\<close> of \<open>dart69_prime_checker.py\<close>.\<close>

definition get_dart69_position :: "int \<Rightarrow> int" where
  "get_dart69_position n = n mod 69"

definition is_forbidden_position :: "int \<Rightarrow> bool \<Rightarrow> bool" where
  "is_forbidden_position pos allow_early_exceptions =
     (if pos mod 3 = 0
      then (if allow_early_exceptions \<and> pos \<in> set [3, 23] then False else True)
      else False)"

text \<open>
  The table \<open>DART69_FORBIDDEN\<close> of the optimized checker, filled by its loop over
  \<open>range(69)\<close>.
\<close>

definition DART69_FORBIDDEN :: "int set" where
  "DART69_FORBIDDEN =
     fold (\<lambda>i s. if i mod 3 = 0 \<or> i mod 23 = 0 then insert i s else s) (py_range 0 69 1) {}"

text \<open>
  The \<open>\<pi>\<close>-dimensions. \<open>math.floor(pi ** d)\<close> is computed by the scripts in floating point;
  the model takes the exact real value.
\<close>

definition pi_pow_floor :: "int \<Rightarrow> int" where
  "pi_pow_floor d = \<lfloor>pi powr real_of_int d\<rfloor>"

text \<open>
  \<open>get_dimension_for_number\<close> (the same text in both checkers): the loop
  \<open>while True\<close> leaves with \<open>d\<close> at the first \<open>d\<close> whose upper bound reaches \<open>n\<close>, or when
  \<open>d\<close> passes 100.
\<close>

function dimension_search :: "int \<Rightarrow> int \<Rightarrow> int" where
  "dimension_search n d =
     (if n \<le> pi_pow_floor d then d
      else if d + 1 > 100 then d + 1
      else dimension_search n (d + 1))"
  by pat_completeness auto
termination
  by (relation "measure (\<lambda>(n, d). nat (101 - d))") auto

declare dimension_search.simps [simp del]

definition get_dimension_for_number :: "int \<Rightarrow> int" where
  "get_dimension_for_number n = (if n \<le> 1 then 0 else dimension_search n 1)"

text \<open>
  \<open>dart69_precheck\<close> of \<open>dart69_prime_checker.py\<close>. Of the returned tuple
  \<open>(could_be_prime, reason, position, angle)\<close> the model keeps the verdict and the position;
  the reason is a message and the angle is the position times \<open>360 / 69\<close>.
\<close>

definition dart69_precheck :: "int \<Rightarrow> bool \<times> int" where
  "dart69_precheck n =
     (if n < 2 then (False, 0)
      else if n = 2 then (True, 2)
      else if n = 3 then (True, 3)
      else if n mod 2 = 0 then (False, get_dart69_position n)
      else (let position = get_dart69_position n;
                dimension = get_dimension_for_number n;
                allow_exceptions = (dimension \<le> 3)
            in if is_forbidden_position position allow_exceptions
               then (False, position)
               else (True, position)))"

text \<open>
  The optimized checker: \<open>get_dimension_range\<close>, its dimensional \<open>get_dart69_position\<close> and
  its \<open>dart69_precheck\<close> (named with the suffix \<open>_opt\<close> here, the names being taken).
\<close>

definition get_dimension_range :: "int \<Rightarrow> int \<times> int" where
  "get_dimension_range dimension = (pi_pow_floor (dimension - 1) + 1, pi_pow_floor dimension)"

definition get_dart69_position_opt :: "int \<Rightarrow> int" where
  "get_dart69_position_opt n =
     (let dimension = get_dimension_for_number n;
          (start, end_n) = get_dimension_range dimension;
          relative_position = n - start
      in relative_position mod 69)"

definition dart69_precheck_opt :: "int \<Rightarrow> bool \<times> int" where
  "dart69_precheck_opt n =
     (let position = get_dart69_position_opt n
      in if position \<in> DART69_FORBIDDEN then (False, position) else (True, position))"

section \<open>The DART-69 sieve\<close>

text \<open>\<open>DART69Sieve.dart69_filter\<close>: the angular filter, then the last-digit filter.\<close>

definition dart69_filter :: "int \<Rightarrow> bool" where
  "dart69_filter n =
     (let sector = n mod 69
      in if (sector mod 3 = 0 \<or> sector mod 23 = 0) \<and> n \<notin> set [3, 23] then False
         else n mod 10 \<in> set [1, 3, 7, 9])"

text \<open>
  The loop of \<open>DART69Sieve.sieve_dimension\<close> over \<open>range(start_num, end_num + 1)\<close>. The
  primality test \<open>self.is_prime\<close> is the gmpy2 engine or \<open>is_prime_basic\<close>, chosen when the
  object is built: it is the parameter \<open>prime_test\<close>, the numbers the engine answers true
  for.
\<close>

definition sieve_dimension_scan :: "(int \<Rightarrow> bool) \<Rightarrow> int \<Rightarrow> int \<Rightarrow> int list" where
  "sieve_dimension_scan prime_test start_num end_num =
     fold (\<lambda>n found.
             if dart69_filter n then (if prime_test n then found @ [n] else found)
             else found)
       (py_range start_num (end_num + 1) 1) []"

definition get_dimension_range_sieve :: "int \<Rightarrow> int \<times> int" where
  "get_dimension_range_sieve dimension =
     (if dimension = 1 then (2, 3)
      else (pi_pow_floor (dimension - 1) + 1, pi_pow_floor dimension))"

definition sieve_dimension :: "(int \<Rightarrow> bool) \<Rightarrow> int \<Rightarrow> int list" where
  "sieve_dimension prime_test dimension =
     (let (start_num, end_num) = get_dimension_range_sieve dimension
      in sieve_dimension_scan prime_test start_num end_num)"

section \<open>Facts about the primitives\<close>

lemma div_mult_le_int: "0 < (s::int) \<Longrightarrow> x div s * s \<le> x"
proof -
  assume s: "0 < s"
  have "0 \<le> x mod s" using s by simp
  moreover have "x = x div s * s + x mod s" by simp
  ultimately show ?thesis by linarith
qed

lemma le_div_int: "0 < (s::int) \<Longrightarrow> s * q \<le> x \<Longrightarrow> q \<le> x div s"
proof -
  assume s: "0 < s" and k: "s * q \<le> x"
  have "(s * q) div s \<le> x div s" using k s by (rule zdiv_mono1)
  then show ?thesis using s by simp
qed

lemma set_py_range:
  assumes "0 < s"
  shows "set (py_range a b s) = {j. a \<le> j \<and> j < b \<and> s dvd (j - a)}"
proof (intro set_eqI iffI)
  fix j
  assume "j \<in> set (py_range a b s)"
  then obtain k where k: "k < nat ((b - a + s - 1) div s)" and j: "j = a + int k * s"
    using assms by (auto simp: py_range_def)
  from k have "int k + 1 \<le> (b - a + s - 1) div s" by simp
  then have "(int k + 1) * s \<le> (b - a + s - 1) div s * s"
    using assms by (simp add: mult_right_mono)
  also have "\<dots> \<le> b - a + s - 1" using assms by (rule div_mult_le_int)
  finally have "a + int k * s < b" by (simp add: algebra_simps)
  moreover have "0 \<le> int k * s" using assms by simp
  ultimately show "j \<in> {j. a \<le> j \<and> j < b \<and> s dvd (j - a)}"
    using j by simp
next
  fix j
  assume "j \<in> {j. a \<le> j \<and> j < b \<and> s dvd (j - a)}"
  then have aj: "a \<le> j" and jb: "j < b" and dv: "s dvd (j - a)" by simp_all
  from dv obtain q where q: "j - a = s * q" ..
  have q0: "0 \<le> q"
    using aj assms q by (metis diff_ge_0_iff_ge leD zero_le_mult_iff)
  have "s * q < b - a" using q jb by simp
  then have "s * (q + 1) \<le> b - a + s - 1" by (simp add: algebra_simps)
  then have "q + 1 \<le> (b - a + s - 1) div s"
    using assms by (rule le_div_int[rotated])
  then have "nat q \<in> set [0..<nat ((b - a + s - 1) div s)]" using q0 by simp
  moreover have "j = a + int (nat q) * s" using q q0 by (simp add: algebra_simps)
  ultimately have "j \<in> (\<lambda>k. a + int k * s) ` set [0..<nat ((b - a + s - 1) div s)]"
    by (rule image_eqI[rotated])
  then show "j \<in> set (py_range a b s)"
    using assms by (simp add: py_range_def)
qed

lemma sorted_py_range: "sorted_wrt (<) (py_range a b s)"
proof (cases "0 < s")
  case True
  have "sorted_wrt (\<lambda>x y. a + int x * s < a + int y * s) [0..<nat ((b - a + s - 1) div s)]"
    by (rule sorted_wrt_mono_rel[of _ "(<)"]) (use True in auto)
  then show ?thesis using True by (simp add: py_range_def sorted_wrt_map)
next
  case False
  then show ?thesis by (simp add: py_range_def)
qed

lemma sqrt_search_sq: "sqrt_search n r * sqrt_search n r \<le> n"
  by (induction r) auto

lemma sqrt_search_max: "m \<le> r \<Longrightarrow> m * m \<le> n \<Longrightarrow> m \<le> sqrt_search n r"
proof (induction r)
  case 0
  then show ?case by simp
next
  case (Suc r)
  show ?case
  proof (cases "Suc r * Suc r \<le> n")
    case True
    then show ?thesis using Suc.prems by simp
  next
    case False
    then have "m \<noteq> Suc r" using Suc.prems by auto
    then have "m \<le> r" using Suc.prems by simp
    then show ?thesis using Suc False by simp
  qed
qed

lemma isqrt_nonneg: "0 \<le> isqrt n"
  by (simp add: isqrt_def)

lemma isqrt_sq_le: "0 \<le> n \<Longrightarrow> isqrt n * isqrt n \<le> n"
proof -
  assume n: "0 \<le> n"
  have "sqrt_search (nat n) (nat n) * sqrt_search (nat n) (nat n) \<le> nat n"
    by (rule sqrt_search_sq)
  then have "int (sqrt_search (nat n) (nat n) * sqrt_search (nat n) (nat n)) \<le> int (nat n)"
    by (simp only: of_nat_le_iff)
  then show ?thesis using n by (simp add: isqrt_def)
qed

lemma le_isqrt: "0 \<le> d \<Longrightarrow> d * d \<le> n \<Longrightarrow> d \<le> isqrt n"
proof -
  assume d: "0 \<le> d" and dn: "d * d \<le> n"
  have n: "0 \<le> n" using dn d by (metis mult_nonneg_nonneg order_trans)
  have "nat d * nat d \<le> nat n" using d dn n
    by (metis nat_mono nat_mult_distrib)
  moreover have "nat d \<le> nat n"
  proof (cases "d = 0")
    case True then show ?thesis by simp
  next
    case False
    then have "1 \<le> d" using d by simp
    then have "d * 1 \<le> d * d" using d by (intro mult_left_mono) auto
    then show ?thesis using dn by simp
  qed
  ultimately have "nat d \<le> sqrt_search (nat n) (nat n)" by (intro sqrt_search_max)
  then show ?thesis using d by (simp add: isqrt_def)
qed

lemma isqrt_le_iff: "0 \<le> d \<Longrightarrow> 0 \<le> n \<Longrightarrow> d \<le> isqrt n \<longleftrightarrow> d * d \<le> n"
proof
  assume d: "0 \<le> d" and n: "0 \<le> n" and le: "d \<le> isqrt n"
  have "d * d \<le> isqrt n * isqrt n" using d le by (intro mult_mono) (auto simp: isqrt_nonneg)
  also have "\<dots> \<le> n" using n by (rule isqrt_sq_le)
  finally show "d * d \<le> n" .
qed (rule le_isqrt)

lemma isqrt_succ_sq_gt: "n < (isqrt n + 1) * (isqrt n + 1)"
proof (rule ccontr)
  assume "\<not> n < (isqrt n + 1) * (isqrt n + 1)"
  then have "(isqrt n + 1) * (isqrt n + 1) \<le> n" by simp
  moreover have "0 \<le> isqrt n + 1" using isqrt_nonneg[of n] by simp
  ultimately have "isqrt n + 1 \<le> isqrt n" by (intro le_isqrt)
  then show False by simp
qed

lemma isqrt_floor_sqrt:
  assumes "0 \<le> n"
  shows "isqrt n = \<lfloor>sqrt (real_of_int n)\<rfloor>"
proof -
  have "(real_of_int (isqrt n))\<^sup>2 \<le> real_of_int n"
  proof -
    have "real_of_int (isqrt n * isqrt n) \<le> real_of_int n"
      using isqrt_sq_le[OF assms] by (simp only: of_int_le_iff)
    then show ?thesis by (simp add: power2_eq_square)
  qed
  then have lo: "real_of_int (isqrt n) \<le> sqrt (real_of_int n)"
    by (rule real_le_rsqrt)
  have "real_of_int n < (real_of_int (isqrt n) + 1)\<^sup>2"
  proof -
    have "real_of_int n < real_of_int ((isqrt n + 1) * (isqrt n + 1))"
      using isqrt_succ_sq_gt[of n] by (simp only: of_int_less_iff)
    then show ?thesis by (simp add: power2_eq_square)
  qed
  moreover have "0 \<le> real_of_int (isqrt n) + 1" using isqrt_nonneg[of n] by simp
  ultimately have hi: "sqrt (real_of_int n) < real_of_int (isqrt n) + 1"
    by (intro real_less_lsqrt)
  have "\<lfloor>sqrt (real_of_int n)\<rfloor> = isqrt n" using lo hi by (intro floor_unique)
  then show ?thesis by simp
qed

subsection \<open>Primality\<close>

lemma is_prime_number_iff:
  "is_prime_number p \<longleftrightarrow> 1 < p \<and> (\<forall>d. 0 < d \<and> d dvd p \<longrightarrow> d = 1 \<or> d = p)"
proof
  assume h: "is_prime_number p"
  then have p: "2 \<le> p" and nd: "\<And>d. 2 \<le> d \<Longrightarrow> d \<le> p - 1 \<Longrightarrow> \<not> d dvd p"
    by (auto simp: is_prime_number_def)
  have "d = 1 \<or> d = p" if "0 < d" "d dvd p" for d
  proof -
    have "d \<le> p" using that p by (intro zdvd_imp_le) auto
    then show ?thesis using nd[of d] that by force
  qed
  then show "1 < p \<and> (\<forall>d. 0 < d \<and> d dvd p \<longrightarrow> d = 1 \<or> d = p)" using p by auto
next
  assume "1 < p \<and> (\<forall>d. 0 < d \<and> d dvd p \<longrightarrow> d = 1 \<or> d = p)"
  then show "is_prime_number p" by (force simp: is_prime_number_def)
qed

text \<open>A number that is not prime has a divisor whose square does not exceed it.\<close>

lemma composite_small_divisor:
  assumes "2 \<le> n" and "\<not> is_prime_number n"
  shows "\<exists>d. 2 \<le> d \<and> d * d \<le> n \<and> d dvd n"
proof -
  from assms obtain a where a: "2 \<le> a" "a \<le> n - 1" "a dvd n"
    by (auto simp: is_prime_number_def)
  from a(3) obtain b where b: "n = a * b" ..
  have b0: "0 < b"
  proof (rule ccontr)
    assume "\<not> 0 < b"
    then have "a * b \<le> a * 0" using a(1) by (intro mult_left_mono) auto
    then show False using assms(1) b by simp
  qed
  have b2: "2 \<le> b"
  proof (rule ccontr)
    assume "\<not> 2 \<le> b"
    then have "b = 1" using b0 by simp
    then show False using a b by simp
  qed
  show ?thesis
  proof (cases "a \<le> b")
    case True
    then have "a * a \<le> a * b" using a(1) by (intro mult_left_mono) auto
    then show ?thesis using a b by auto
  next
    case False
    then have "b * b \<le> a * b" using b0 by (intro mult_right_mono) auto
    moreover have "b dvd n" using b by simp
    ultimately show ?thesis using b2 b by auto
  qed
qed

lemma small_divisor_not_prime:
  assumes "2 \<le> d" and "d * d \<le> n" and "d dvd n"
  shows "\<not> is_prime_number n"
proof -
  have "d * 2 \<le> d * d" using assms(1) by (intro mult_left_mono) auto
  then have "d \<le> n - 1" using assms by linarith
  then show ?thesis using assms by (auto simp: is_prime_number_def)
qed

lemma is_prime_number_sqrt_iff:
  "is_prime_number n \<longleftrightarrow> 2 \<le> n \<and> (\<forall>d. 2 \<le> d \<and> d * d \<le> n \<longrightarrow> \<not> d dvd n)"
proof
  assume h: "is_prime_number n"
  then have "2 \<le> n" by (simp add: is_prime_number_def)
  moreover have "\<not> d dvd n" if "2 \<le> d \<and> d * d \<le> n" for d
    using small_divisor_not_prime[of d n] that h by blast
  ultimately show "2 \<le> n \<and> (\<forall>d. 2 \<le> d \<and> d * d \<le> n \<longrightarrow> \<not> d dvd n)" by blast
next
  assume "2 \<le> n \<and> (\<forall>d. 2 \<le> d \<and> d * d \<le> n \<longrightarrow> \<not> d dvd n)"
  then show "is_prime_number n" using composite_small_divisor[of n] by blast
qed

lemma no_divisor_iff: "no_divisor n xs \<longleftrightarrow> (\<forall>i\<in>set xs. n mod i \<noteq> 0)"
  by (induction xs) auto

lemma no_divisor_6k_iff:
  "no_divisor_6k n xs \<longleftrightarrow> (\<forall>i\<in>set xs. n mod i \<noteq> 0 \<and> n mod (i + 2) \<noteq> 0)"
  by (induction xs) auto

subsection \<open>The root in double precision\<close>

lemma bit_length_le: "n < 2 ^ k \<Longrightarrow> bit_length n \<le> k"
proof (induction k arbitrary: n)
  case 0
  then have "n \<le> 0" by simp
  then show ?case by (subst bit_length.simps) simp
next
  case (Suc k)
  show ?case
  proof (cases "n \<le> 0")
    case True
    then show ?thesis by (subst bit_length.simps) simp
  next
    case False
    have "n div 2 < 2 ^ k" using Suc.prems by simp
    then have "bit_length (n div 2) \<le> k" by (rule Suc.IH)
    then show ?thesis using False by (subst bit_length.simps) simp
  qed
qed

lemma sqrt_double_small:
  assumes "0 \<le> x" and "x < 2 ^ 53"
  shows "sqrt_double x = isqrt x \<or> sqrt_double x = isqrt x + 1"
proof -
  have "isqrt x * 1 \<le> isqrt x * isqrt x \<or> isqrt x = 0"
    using isqrt_nonneg[of x] by (cases "isqrt x = 0") (auto intro: mult_left_mono)
  then have "isqrt x \<le> x" using isqrt_sq_le[OF assms(1)] assms(1) by auto
  then have "isqrt x < 2 ^ 53" using assms(2) by simp
  then have "bit_length (isqrt x) \<le> 53" by (rule bit_length_le)
  then show ?thesis by (simp add: sqrt_double_def Let_def)
qed

lemma float_isqrt_small:
  assumes "0 \<le> n" and "n < 2 ^ 53"
  shows "\<exists>r. float_isqrt n = Inr r \<and> isqrt n \<le> r \<and> r \<le> isqrt n + 1"
proof -
  have "float_isqrt n = Inr (sqrt_double n)"
    using assms by (simp add: float_isqrt_def to_double_def)
  then show ?thesis using sqrt_double_small[OF assms] by auto
qed

lemma float_isqrt_overflow:
  assumes "2 ^ 1024 - 2 ^ 970 \<le> n"
  shows "float_isqrt n = Inl OverflowError"
proof -
  have "(2::int) ^ 53 \<le> 2 ^ 1024 - 2 ^ 970" by simp
  then have a: "\<not> n < 2 ^ 53" using assms by linarith
  have "(0::int) \<le> 2 ^ 53" by simp
  then have b: "\<not> n < 0" using a by linarith
  from a b show ?thesis using assms by (simp add: float_isqrt_def to_double_def)
qed

lemma float_isqrt_cases: "(\<exists>r. float_isqrt n = Inr r) \<or> float_isqrt n = Inl OverflowError \<or> n < 0"
  by (auto simp: float_isqrt_def to_double_def Let_def)

lemma isqrt_unique:
  assumes "0 \<le> s" and "s * s \<le> x" and "x < (s + 1) * (s + 1)"
  shows "isqrt x = s"
proof -
  have x0: "0 \<le> x" using assms(1,2) by (metis mult_nonneg_nonneg order_trans)
  have "s \<le> isqrt x" using assms(1,2) by (rule le_isqrt)
  moreover have "isqrt x \<le> s"
  proof (rule ccontr)
    assume "\<not> isqrt x \<le> s"
    then have "s + 1 \<le> isqrt x" by simp
    then have "(s + 1) * (s + 1) \<le> isqrt x * isqrt x"
      using assms(1) by (intro mult_mono) auto
    then show False using isqrt_sq_le[OF x0] assms(3) by linarith
  qed
  ultimately show ?thesis by simp
qed

text \<open>
  Beyond \<open>2 ^ 53\<close> the root in double precision can fall below the exact one: at the square
  of 9007199254740997 it is 9007199254740996.
\<close>

lemma float_isqrt_below_exact_root:
  "float_isqrt (9007199254740997 * 9007199254740997) = Inr 9007199254740996"
proof -
  have d: "to_double (9007199254740997 * 9007199254740997) = Inr 81129638414606771767781552553984"
    by code_simp
  have s: "isqrt 81129638414606771767781552553984 = 9007199254740996"
    by (rule isqrt_unique) simp_all
  have b: "bit_length 9007199254740996 = 54" by code_simp
  have "sqrt_double 81129638414606771767781552553984 = 9007199254740996"
    unfolding sqrt_double_def Let_def s b by simp
  moreover have "to_double 81129638414606771767781552554009
      = Inr 81129638414606771767781552553984" using d by simp
  ultimately show ?thesis by (simp add: float_isqrt_def)
qed

subsection \<open>Trial division over the odd numbers\<close>

lemma odd_trial_loop:
  "no_divisor n (py_range 3 (r + 1) 2) \<longleftrightarrow>
     \<not> (\<exists>d. odd d \<and> 3 \<le> d \<and> d \<le> r \<and> d dvd n)"
proof -
  have "set (py_range 3 (r + 1) 2) = {d. 3 \<le> d \<and> d \<le> r \<and> odd d}"
    by (auto simp: set_py_range)
  then show ?thesis by (auto simp: no_divisor_iff dvd_eq_mod_eq_0)
qed

lemma odd_prime_iff:
  assumes "3 \<le> n" and "odd n"
  shows "is_prime_number n \<longleftrightarrow> \<not> (\<exists>d. odd d \<and> 3 \<le> d \<and> d \<le> isqrt n \<and> d dvd n)"
proof
  assume pr: "is_prime_number n"
  show "\<not> (\<exists>d. odd d \<and> 3 \<le> d \<and> d \<le> isqrt n \<and> d dvd n)"
  proof
    assume "\<exists>d. odd d \<and> 3 \<le> d \<and> d \<le> isqrt n \<and> d dvd n"
    then obtain d where d: "3 \<le> d" "d \<le> isqrt n" "d dvd n" by blast
    then have "d * d \<le> n" using assms(1) by (simp add: isqrt_le_iff[symmetric])
    then show False using small_divisor_not_prime[of d n] d pr by simp
  qed
next
  assume nd: "\<not> (\<exists>d. odd d \<and> 3 \<le> d \<and> d \<le> isqrt n \<and> d dvd n)"
  show "is_prime_number n"
  proof (rule ccontr)
    assume "\<not> is_prime_number n"
    then obtain d where d: "2 \<le> d" "d * d \<le> n" "d dvd n"
      using composite_small_divisor[of n] assms(1) by auto
    have "odd d" using d(3) assms(2) by (meson dvd_trans)
    then have "d \<noteq> 2" by auto
    then have "3 \<le> d" using d(1) by simp
    moreover have "d \<le> isqrt n" using d by (intro le_isqrt) auto
    ultimately show False using nd \<open>odd d\<close> d(3) by blast
  qed
qed

text \<open>A loop bound at or above the exact root and below \<open>n\<close> gives the same verdict.\<close>

lemma odd_trial_loop_prime:
  assumes "3 \<le> n" and "odd n" and "isqrt n \<le> r" and "r < n"
  shows "no_divisor n (py_range 3 (r + 1) 2) \<longleftrightarrow> is_prime_number n"
proof
  assume "no_divisor n (py_range 3 (r + 1) 2)"
  then have "\<not> (\<exists>d. odd d \<and> 3 \<le> d \<and> d \<le> r \<and> d dvd n)" by (simp add: odd_trial_loop)
  then have "\<not> (\<exists>d. odd d \<and> 3 \<le> d \<and> d \<le> isqrt n \<and> d dvd n)"
    using assms(3) by (meson order_trans)
  then show "is_prime_number n" using odd_prime_iff[OF assms(1,2)] by blast
next
  assume pr: "is_prime_number n"
  have "\<not> d dvd n" if "3 \<le> d" "d \<le> r" for d
    using pr that assms(4) by (auto simp: is_prime_number_def)
  then show "no_divisor n (py_range 3 (r + 1) 2)" by (auto simp: odd_trial_loop)
qed

lemma even_not_prime:
  assumes "2 < n" and "n mod 2 = 0"
  shows "\<not> is_prime_number n"
proof -
  have "(2::int) dvd n" using assms(2) by presburger
  then show ?thesis using assms(1) by (auto simp: is_prime_number_def)
qed

lemma two_prime: "is_prime_number 2"
  by (simp add: is_prime_number_def)

lemma root_below:
  assumes "3 \<le> n" and "r \<le> isqrt n + 1"
  shows "r < n"
proof -
  have n0: "0 \<le> n" using assms(1) by simp
  have "isqrt n + 1 < n"
  proof (cases "isqrt n \<le> 1")
    case True
    then show ?thesis using assms(1) by simp
  next
    case False
    then have "isqrt n * 2 \<le> isqrt n * isqrt n" by (intro mult_left_mono) auto
    then show ?thesis using isqrt_sq_le[OF n0] False by linarith
  qed
  then show ?thesis using assms(2) by simp
qed

lemma trial_division_small:
  assumes "n < 2 ^ 53"
  shows "trial_division n = Inr (is_prime_number n)"
proof -
  consider "n < 2" | "n = 2" | "2 < n" "n mod 2 = 0" | "3 \<le> n" "n mod 2 \<noteq> 0" by linarith
  then show ?thesis
  proof cases
    case 1
    then show ?thesis by (simp add: trial_division_def is_prime_number_def)
  next
    case 2
    then show ?thesis by (simp add: trial_division_def two_prime)
  next
    case 3
    then show ?thesis using even_not_prime[of n] by (simp add: trial_division_def)
  next
    case 4
    then have od: "odd n" by presburger
    from float_isqrt_small[of n] assms 4(1)
    obtain r where r: "float_isqrt n = Inr r" "isqrt n \<le> r" "r \<le> isqrt n + 1" by auto
    have "r < n" using root_below[OF 4(1) r(3)] .
    then have "no_divisor n (py_range 3 (r + 1) 2) \<longleftrightarrow> is_prime_number n"
      using odd_trial_loop_prime[OF 4(1) od r(2)] by simp
    then show ?thesis using 4 r(1) by (simp add: trial_division_def)
  qed
qed

lemma is_prime_fast_eq: "is_prime_fast n = trial_division n"
  by (simp add: is_prime_fast_def trial_division_def)

lemma trial_division_overflow:
  assumes "2 ^ 1024 - 2 ^ 970 \<le> n" and "odd n"
  shows "trial_division n = Inl OverflowError"
proof -
  have "(3::int) \<le> 2 ^ 1024 - 2 ^ 970" by simp
  then have "3 \<le> n" using assms(1) by linarith
  moreover have "n mod 2 \<noteq> 0" using assms(2) by presburger
  ultimately show ?thesis
    using float_isqrt_overflow[OF assms(1)] by (simp add: trial_division_def)
qed

lemma trial_division_cases:
  "(\<exists>b. trial_division n = Inr b) \<or> trial_division n = Inl OverflowError"
proof (cases "n < 2 \<or> n = 2 \<or> n mod 2 = 0")
  case True
  then show ?thesis by (auto simp: trial_division_def)
next
  case False
  then have "\<not> n < 0" by simp
  then show ?thesis using float_isqrt_cases[of n] False
    by (auto simp: trial_division_def)
qed

subsection \<open>Trial division over 6k - 1 and 6k + 1\<close>

lemma wheel_loop:
  "no_divisor_6k n (py_range 5 (r + 1) 6) \<longleftrightarrow>
     (\<forall>i. 5 \<le> i \<and> i \<le> r \<and> 6 dvd (i - 5) \<longrightarrow> \<not> i dvd n \<and> \<not> (i + 2) dvd n)"
proof -
  have "set (py_range 5 (r + 1) 6) = {i. 5 \<le> i \<and> i \<le> r \<and> 6 dvd (i - 5)}"
    by (auto simp: set_py_range)
  then show ?thesis by (auto simp: no_divisor_6k_iff dvd_eq_mod_eq_0)
qed

lemma wheel_prime_iff:
  assumes "9 \<le> n" and "odd n" and "\<not> 3 dvd n" and "isqrt n \<le> r" and "r + 2 < n"
  shows "is_prime_number n \<longleftrightarrow>
     (\<forall>i. 5 \<le> i \<and> i \<le> r \<and> 6 dvd (i - 5) \<longrightarrow> \<not> i dvd n \<and> \<not> (i + 2) dvd n)"
proof
  assume pr: "is_prime_number n"
  show "\<forall>i. 5 \<le> i \<and> i \<le> r \<and> 6 dvd (i - 5) \<longrightarrow> \<not> i dvd n \<and> \<not> (i + 2) dvd n"
  proof (intro allI impI)
    fix i
    assume i: "5 \<le> i \<and> i \<le> r \<and> 6 dvd (i - 5)"
    then have "2 \<le> i" "i \<le> n - 1" "2 \<le> i + 2" "i + 2 \<le> n - 1" using assms(5) by simp_all
    then show "\<not> i dvd n \<and> \<not> (i + 2) dvd n" using pr by (auto simp: is_prime_number_def)
  qed
next
  assume nd: "\<forall>i. 5 \<le> i \<and> i \<le> r \<and> 6 dvd (i - 5) \<longrightarrow> \<not> i dvd n \<and> \<not> (i + 2) dvd n"
  show "is_prime_number n"
  proof (rule ccontr)
    assume "\<not> is_prime_number n"
    then obtain d where d: "2 \<le> d" "d * d \<le> n" "d dvd n"
      using composite_small_divisor[of n] assms(1) by auto
    have od: "odd d" using d(3) assms(2) by (meson dvd_trans)
    have n3: "\<not> 3 dvd d" using d(3) assms(3) by (meson dvd_trans)
    have "d \<le> isqrt n" using d by (intro le_isqrt) auto
    then have le: "d \<le> r" using assms(4) by simp
    from od n3 have "d mod 6 = 1 \<or> d mod 6 = 5" by presburger
    then show False
    proof
      assume m: "d mod 6 = 5"
      then have "6 dvd (d - 5)" by presburger
      moreover have "5 \<le> d" using m d(1) by presburger
      ultimately show False using nd le d(3) by blast
    next
      assume m: "d mod 6 = 1"
      then have "6 dvd (d - 2 - 5)" by presburger
      moreover have "5 \<le> d - 2" using m d(1) by presburger
      moreover have "d - 2 \<le> r" using le by simp
      ultimately have "\<not> (d - 2 + 2) dvd n" using nd by blast
      then show False using d(3) by simp
    qed
  qed
qed

lemma small_odd_prime:
  assumes "3 \<le> n" and "n < 9" and "odd n"
  shows "is_prime_number n"
proof -
  have "n = 3 \<or> n = 5 \<or> n = 7" using assms by presburger
  moreover have "{2..(2::int)} = {2}" "{2..(4::int)} = {2, 3, 4}" "{2..(6::int)} = {2, 3, 4, 5, 6}"
    by auto
  ultimately show ?thesis by (auto simp: is_prime_number_def)
qed

lemma root_below_2:
  assumes "9 \<le> n" and "r \<le> isqrt n + 1"
  shows "r + 2 < n"
proof -
  have n0: "0 \<le> n" using assms(1) by simp
  have "3 * 3 \<le> n" using assms(1) by simp
  then have three: "3 \<le> isqrt n" by (intro le_isqrt) auto
  then have "isqrt n * 3 \<le> isqrt n * isqrt n" by (intro mult_left_mono) auto
  then have "isqrt n + 3 < n" using isqrt_sq_le[OF n0] three by linarith
  then show ?thesis using assms(2) by simp
qed

lemma is_prime_basic_small:
  assumes "n < 2 ^ 53"
  shows "is_prime_basic n = Inr (is_prime_number n)"
proof -
  consider "n < 2" | "n = 2" | "2 < n" "n mod 2 = 0" | "3 \<le> n" "n < 9" "n mod 2 \<noteq> 0"
    | "9 \<le> n" "n mod 2 \<noteq> 0" "n mod 3 = 0" | "9 \<le> n" "n mod 2 \<noteq> 0" "n mod 3 \<noteq> 0"
    by linarith
  then show ?thesis
  proof cases
    case 1
    then show ?thesis by (simp add: is_prime_basic_def is_prime_number_def)
  next
    case 2
    then show ?thesis by (simp add: is_prime_basic_def two_prime)
  next
    case 3
    then show ?thesis using even_not_prime[of n] by (simp add: is_prime_basic_def)
  next
    case 4
    then have "odd n" by presburger
    then show ?thesis using 4 small_odd_prime[of n] by (simp add: is_prime_basic_def)
  next
    case 5
    then have "(3::int) dvd n" by presburger
    then have "\<not> is_prime_number n" using 5(1) by (auto simp: is_prime_number_def)
    then show ?thesis using 5 by (simp add: is_prime_basic_def)
  next
    case 6
    then have od: "odd n" and n3: "\<not> 3 dvd n" by presburger+
    from float_isqrt_small[of n] assms 6(1)
    obtain r where r: "float_isqrt n = Inr r" "isqrt n \<le> r" "r \<le> isqrt n + 1" by auto
    have "r + 2 < n" using root_below_2[OF 6(1) r(3)] .
    then have "no_divisor_6k n (py_range 5 (r + 1) 6) \<longleftrightarrow> is_prime_number n"
      using wheel_prime_iff[OF 6(1) od n3 r(2)] wheel_loop[of n r] by simp
    then show ?thesis using 6 r(1) by (simp add: is_prime_basic_def)
  qed
qed

lemma is_prime_basic_overflow:
  assumes "2 ^ 1024 - 2 ^ 970 \<le> n" and "odd n" and "\<not> 3 dvd n"
  shows "is_prime_basic n = Inl OverflowError"
proof -
  have "(9::int) \<le> 2 ^ 1024 - 2 ^ 970" by simp
  then have "9 \<le> n" using assms(1) by linarith
  moreover have "n mod 2 \<noteq> 0" "n mod 3 \<noteq> 0" using assms(2,3) by presburger+
  ultimately show ?thesis
    using float_isqrt_overflow[OF assms(1)] by (simp add: is_prime_basic_def)
qed

subsection \<open>The sieve\<close>

lemma py_range_step1: "py_range a b 1 = [a..b - 1]"
proof -
  have "sorted (py_range a b 1) \<and> distinct (py_range a b 1)"
    using sorted_py_range[of a b 1] by (simp add: strict_sorted_iff)
  moreover have "sorted [a..b - 1] \<and> distinct [a..b - 1]" by simp
  moreover have "set (py_range a b 1) = set [a..b - 1]"
    by (auto simp: set_py_range)
  ultimately show ?thesis by (blast intro: sorted_distinct_set_unique)
qed

lemma fold_strike_length: "length (fold (\<lambda>j s. s[nat j := False]) js s) = length s"
  by (induction js arbitrary: s) auto

lemma fold_strike_nth:
  "k < length s \<Longrightarrow>
   fold (\<lambda>j s. s[nat j := False]) js s ! k = (s ! k \<and> k \<notin> nat ` set js)"
proof (induction js arbitrary: s)
  case Nil
  then show ?case by simp
next
  case (Cons j js)
  have "k < length (s[nat j := False])" using Cons.prems by simp
  from Cons.IH[OF this]
  have "fold (\<lambda>j s. s[nat j := False]) (j # js) s ! k =
        (s[nat j := False] ! k \<and> k \<notin> nat ` set js)" by simp
  also have "s[nat j := False] ! k = (s ! k \<and> k \<noteq> nat j)"
    using Cons.prems by (cases "k = nat j") simp_all
  finally show ?case by auto
qed

lemma strike_multiples_length: "length (strike_multiples n i s) = length s"
  by (simp add: strike_multiples_def fold_strike_length)

lemma strike_multiples_nth:
  assumes "0 < i" and "k < length s"
  shows "strike_multiples n i s ! k = (s ! k \<and> \<not> (i * i \<le> int k \<and> int k \<le> n \<and> i dvd int k))"
proof -
  have "k \<in> nat ` set (py_range (i * i) (n + 1) i) \<longleftrightarrow>
        i * i \<le> int k \<and> int k \<le> n \<and> i dvd int k"
  proof
    assume "k \<in> nat ` set (py_range (i * i) (n + 1) i)"
    then obtain j where j: "i * i \<le> j" "j < n + 1" "i dvd (j - i * i)" and k: "k = nat j"
      using assms(1) by (auto simp: set_py_range)
    have "0 \<le> i * i" by simp
    then have "0 \<le> j" using j(1) by linarith
    then have "int k = j" using k by simp
    moreover have "i dvd j" using j(3) by (simp add: dvd_diff_left_iff)
    ultimately show "i * i \<le> int k \<and> int k \<le> n \<and> i dvd int k" using j by simp
  next
    assume h: "i * i \<le> int k \<and> int k \<le> n \<and> i dvd int k"
    then have "i dvd (int k - i * i)" by simp
    then have "int k \<in> set (py_range (i * i) (n + 1) i)"
      using h assms(1) by (simp add: set_py_range)
    then have "nat (int k) \<in> nat ` set (py_range (i * i) (n + 1) i)" by (rule imageI)
    then show "k \<in> nat ` set (py_range (i * i) (n + 1) i)" by simp
  qed
  then show ?thesis using assms(2) by (simp add: strike_multiples_def fold_strike_nth)
qed


lemma initial_table:
  assumes "2 \<le> n"
  shows "length ((replicate (nat (n + 1)) True)[0 := False, 1 := False]) = nat (n + 1)"
    and "k < nat (n + 1) \<Longrightarrow>
         (replicate (nat (n + 1)) True)[0 := False, 1 := False] ! k = (2 \<le> int k)"
proof -
  show "length ((replicate (nat (n + 1)) True)[0 := False, 1 := False]) = nat (n + 1)"
    by simp
  assume k: "k < nat (n + 1)"
  consider "k = 0" | "k = 1" | "2 \<le> k" by linarith
  then show "(replicate (nat (n + 1)) True)[0 := False, 1 := False] ! k = (2 \<le> int k)"
    using k assms by cases (simp_all add: nth_list_update)
qed

lemma sieve_fold_invariant:
  assumes n: "2 \<le> n" and m1: "1 \<le> m" and m2: "m \<le> isqrt n"
  shows "length (fold (sieve_step n) [2..m]
            ((replicate (nat (n + 1)) True)[0 := False, 1 := False])) = nat (n + 1) \<and>
         (\<forall>k < nat (n + 1).
            fold (sieve_step n) [2..m]
              ((replicate (nat (n + 1)) True)[0 := False, 1 := False]) ! k
            = (2 \<le> int k \<and> \<not> (\<exists>d. 2 \<le> d \<and> d \<le> m \<and> d * d \<le> int k \<and> d dvd int k)))"
  using m1 m2
proof (induction m rule: int_ge_induct)
  case base
  have "[2..(1::int)] = []" by simp
  then show ?case using initial_table[OF n] by auto
next
  case (step m)
  define s0 where "s0 = (replicate (nat (n + 1)) True)[0 := False, 1 := False]"
  define s where "s = fold (sieve_step n) [2..m] s0"
  define i where "i = m + 1"
  have ih_len: "length s = nat (n + 1)"
    and ih: "\<And>k. k < nat (n + 1) \<Longrightarrow>
        s ! k = (2 \<le> int k \<and> \<not> (\<exists>d. 2 \<le> d \<and> d \<le> m \<and> d * d \<le> int k \<and> d dvd int k))"
    using step by (simp_all add: s_def s0_def)
  have i2: "2 \<le> i" using step.hyps by (simp add: i_def)
  have "i * i \<le> n" using step.prems i2 n by (simp add: i_def isqrt_le_iff[symmetric])
  moreover have "i * 1 \<le> i * i" using i2 by (intro mult_left_mono) auto
  ultimately have i_le: "i \<le> n" by simp
  then have i_idx: "nat i < nat (n + 1)" using i2 by simp
  have "[2..m + 1] = [2..m] @ [m + 1]" using step.hyps by (simp add: upto_rec2)
  then have fold_eq: "fold (sieve_step n) [2..m + 1] s0 = sieve_step n i s"
    by (simp add: s_def i_def)
  have len: "length (sieve_step n i s) = nat (n + 1)"
    by (simp add: sieve_step_def strike_multiples_length ih_len)
  have nth: "sieve_step n i s ! k =
      (2 \<le> int k \<and> \<not> (\<exists>d. 2 \<le> d \<and> d \<le> m + 1 \<and> d * d \<le> int k \<and> d dvd int k))"
    if k: "k < nat (n + 1)" for k
  proof -
    have kn: "int k \<le> n" using k by simp
    have le_iff: "\<And>d. d \<le> m + 1 \<longleftrightarrow> d \<le> m \<or> d = i" by (auto simp: i_def)
    have split: "(\<exists>d. 2 \<le> d \<and> d \<le> m + 1 \<and> d * d \<le> int k \<and> d dvd int k) \<longleftrightarrow>
        (\<exists>d. 2 \<le> d \<and> d \<le> m \<and> d * d \<le> int k \<and> d dvd int k) \<or>
        (i * i \<le> int k \<and> i dvd int k)"
      unfolding le_iff using i2 by blast
    show ?thesis
    proof (cases "s ! nat i")
      case True
      then have "sieve_step n i s ! k =
          (s ! k \<and> \<not> (i * i \<le> int k \<and> int k \<le> n \<and> i dvd int k))"
        using i2 k by (simp add: sieve_step_def strike_multiples_nth ih_len)
      then show ?thesis using ih[OF k] kn split by auto
    next
      case False
      then obtain d where d: "2 \<le> d" "d \<le> m" "d * d \<le> i" "d dvd i"
        using ih[OF i_idx] i2 by auto
      have "\<exists>d. 2 \<le> d \<and> d \<le> m \<and> d * d \<le> int k \<and> d dvd int k"
        if h: "i * i \<le> int k \<and> i dvd int k"
      proof -
        have "i * 1 \<le> i * i" using i2 by (intro mult_left_mono) auto
        then have "d * d \<le> int k" using d(3) h by linarith
        moreover have "d dvd int k" using d(4) h by (meson dvd_trans)
        ultimately show ?thesis using d by blast
      qed
      then show ?thesis using False ih[OF k] split by (auto simp: sieve_step_def)
    qed
  qed
  have "fold (sieve_step n) [2..m + 1]
          ((replicate (nat (n + 1)) True)[0 := False, 1 := False]) = sieve_step n i s"
    using fold_eq by (simp only: s0_def)
  then show ?case using len nth by presburger
qed

lemma sieve_table_length: "2 \<le> n \<Longrightarrow> length (sieve_table n) = nat (n + 1)"
proof -
  assume n: "2 \<le> n"
  have "1 * 1 \<le> n" using n by simp
  then have "1 \<le> isqrt n" by (intro le_isqrt) auto
  from sieve_fold_invariant[OF n _ order_refl, OF this]
  show ?thesis by (simp add: sieve_table_def py_range_step1)
qed

lemma sieve_table_prime:
  assumes n: "2 \<le> n" and k: "0 \<le> k" "k \<le> n"
  shows "sieve_table n ! nat k \<longleftrightarrow> is_prime_number k"
proof -
  have "1 * 1 \<le> n" using n by simp
  then have "1 \<le> isqrt n" by (intro le_isqrt) auto
  from sieve_fold_invariant[OF n _ order_refl, OF this]
  have tab: "\<And>j. j < nat (n + 1) \<Longrightarrow> sieve_table n ! j =
      (2 \<le> int j \<and> \<not> (\<exists>d. 2 \<le> d \<and> d \<le> isqrt n \<and> d * d \<le> int j \<and> d dvd int j))"
    by (simp add: sieve_table_def py_range_step1)
  have "nat k < nat (n + 1)" using k by simp
  from tab[OF this] have "sieve_table n ! nat k =
      (2 \<le> k \<and> \<not> (\<exists>d. 2 \<le> d \<and> d \<le> isqrt n \<and> d * d \<le> k \<and> d dvd k))"
    using k by simp
  moreover have "d \<le> isqrt n" if "2 \<le> d" "d * d \<le> k" for d
    using that k by (intro le_isqrt) auto
  ultimately show ?thesis unfolding is_prime_number_sqrt_iff by blast
qed

lemma sieve_of_eratosthenes_eq: "sieve_of_eratosthenes n = filter is_prime_number [0..n]"
proof (cases "n < 2")
  case True
  have "\<not> is_prime_number k" if "k \<in> set [0..n]" for k
    using that True by (simp add: is_prime_number_def)
  then have "filter is_prime_number [0..n] = []" by (simp add: filter_empty_conv)
  then show ?thesis using True by (simp add: sieve_of_eratosthenes_def)
next
  case False
  then have n: "2 \<le> n" by simp
  have "[0..n] = [0..1] @ [2..n]" using n upto_split2[of 0 1 n] by simp
  moreover have "filter is_prime_number [0..1] = []"
    by (auto simp: filter_empty_conv is_prime_number_def)
  ultimately have "filter is_prime_number [0..n] = filter is_prime_number [2..n]" by simp
  moreover have "filter (\<lambda>i. sieve_table n ! nat i) [2..n] = filter is_prime_number [2..n]"
    by (rule filter_cong) (use n sieve_table_prime in auto)
  ultimately show ?thesis using n by (simp add: sieve_of_eratosthenes_def py_range_step1)
qed

subsection \<open>The fallback tests and the verification suite\<close>

lemma fallback_props:
  assumes "n < 2 \<Longrightarrow> f n = Inr False"
    and "n = 2 \<Longrightarrow> f n = Inr True"
    and "2 < n \<Longrightarrow> n mod 2 = 0 \<Longrightarrow> f n = Inr False"
    and "n < 2 ^ 53 \<Longrightarrow> f n = Inr (is_prime_number n)"
  shows "(n < 2 \<longrightarrow> f n = Inr False) \<and>
     (n = 2 \<longrightarrow> f n = Inr True) \<and>
     (2 < n \<and> even n \<longrightarrow> f n = Inr False) \<and>
     (3 \<le> n \<and> odd n \<and> n < 2 ^ 52 \<longrightarrow>
        (f n = Inr True \<longleftrightarrow> \<not> (\<exists>d. odd d \<and> 3 \<le> d \<and> d \<le> isqrt n \<and> d dvd n))) \<and>
     (n < 2 ^ 52 \<longrightarrow> f n = Inr (is_prime_number n))"
proof -
  have le: "n < 2 ^ 52 \<Longrightarrow> n < 2 ^ 53" by simp
  have ev: "2 < n \<and> even n \<longrightarrow> f n = Inr False"
  proof
    assume h: "2 < n \<and> even n"
    then have "n mod 2 = 0" by presburger
    then show "f n = Inr False" using h assms(3) by simp
  qed
  have od: "3 \<le> n \<and> odd n \<and> n < 2 ^ 52 \<longrightarrow>
        (f n = Inr True \<longleftrightarrow> \<not> (\<exists>d. odd d \<and> 3 \<le> d \<and> d \<le> isqrt n \<and> d dvd n))"
  proof
    assume h: "3 \<le> n \<and> odd n \<and> n < 2 ^ 52"
    then have "f n = Inr (is_prime_number n)" using assms(4) le by simp
    then show "f n = Inr True \<longleftrightarrow> \<not> (\<exists>d. odd d \<and> 3 \<le> d \<and> d \<le> isqrt n \<and> d dvd n)"
      using odd_prime_iff[of n] h by simp
  qed
  show ?thesis using assms(1,2,4) le ev od by blast
qed

lemma is_prime_call_small:
  assumes "k < 2 ^ 53"
  shows "is_prime_call (init_suite m) k = Inr (is_prime_number k)"
proof (cases "k \<le> m")
  case True
  have "is_prime_number k \<Longrightarrow> 0 \<le> k" by (simp add: is_prime_number_def)
  then show ?thesis using True
    by (auto simp: is_prime_call_def init_suite_def sieve_of_eratosthenes_eq)
next
  case False
  then show ?thesis using assms
    by (simp add: is_prime_call_def init_suite_def trial_division_small)
qed

lemma is_prime_call_no_out_of_range: "is_prime_call self k \<noteq> Inl OutOfRange"
  using trial_division_cases[of k] by (auto simp: is_prime_call_def)

subsection \<open>The DART-69 filter and the scan of the sieve\<close>

lemma fold_collect:
  "fold (\<lambda>n found. if P n then (if Q n then found @ [n] else found) else found) xs acc
     = acc @ filter (\<lambda>n. P n \<and> Q n) xs"
  by (induction xs arbitrary: acc) auto

lemma sieve_dimension_scan_eq:
  "sieve_dimension_scan prime_test start_num end_num
     = filter (\<lambda>n. dart69_filter n \<and> prime_test n) [start_num..end_num]"
  by (simp add: sieve_dimension_scan_def fold_collect py_range_step1)

lemma prime_divisor:
  assumes "is_prime_number p" and "0 < d" and "d dvd p"
  shows "d = 1 \<or> d = p"
  using assms unfolding is_prime_number_iff by blast

lemma dart69_filter_prime:
  assumes "is_prime_number p"
  shows "dart69_filter p \<longleftrightarrow> p \<noteq> 2 \<and> p \<noteq> 5"
proof -
  have d2: "2 dvd p \<longleftrightarrow> p = 2" using prime_divisor[OF assms, of 2] by auto
  have d3: "3 dvd p \<longleftrightarrow> p = 3" using prime_divisor[OF assms, of 3] by auto
  have d5: "5 dvd p \<longleftrightarrow> p = 5" using prime_divisor[OF assms, of 5] by auto
  have d23: "23 dvd p \<longleftrightarrow> p = 23" using prime_divisor[OF assms, of 23] by auto
  have s3: "(p mod 69) mod 3 = 0 \<longleftrightarrow> 3 dvd p" by presburger
  have s23: "(p mod 69) mod 23 = 0 \<longleftrightarrow> 23 dvd p" by presburger
  have dig: "p mod 10 \<in> set [1, 3, 7, 9] \<longleftrightarrow> \<not> 2 dvd p \<and> \<not> 5 dvd p"
  proof -
    have "p mod 10 = 1 \<or> p mod 10 = 3 \<or> p mod 10 = 7 \<or> p mod 10 = 9
        \<longleftrightarrow> \<not> 2 dvd p \<and> \<not> 5 dvd p" by presburger
    then show ?thesis by simp
  qed
  show ?thesis
    unfolding dart69_filter_def Let_def s3 s23 dig d2 d3 d5 d23 by auto
qed

lemma dart69_filter_digit: "dart69_filter n \<Longrightarrow> n mod 10 \<in> {1, 3, 7, 9}"
  by (simp add: dart69_filter_def Let_def split: if_splits)

subsection \<open>The wheel positions and the \<open>\<pi>\<close>-dimensions\<close>

lemma pi_ge_3: "3 \<le> pi"
proof -
  have "sin (pi / 6) \<le> pi / 6" by (intro sin_x_le_x) simp
  then show ?thesis by (simp add: sin_30)
qed

lemma pi_pow_floor_1: "pi_pow_floor 1 = 3"
proof -
  have "\<lfloor>pi\<rfloor> = 3" using pi_ge_3 pi_less_4 by (intro floor_unique) auto
  then show ?thesis by (simp add: pi_pow_floor_def)
qed

lemma pi_pow_floor_2: "9 \<le> pi_pow_floor 2" "pi_pow_floor 2 \<le> 15"
proof -
  have eq: "pi powr real_of_int 2 = pi * pi" by (simp add: power2_eq_square)
  have "3 * 3 \<le> pi * pi" using pi_ge_3 by (intro mult_mono) auto
  then show "9 \<le> pi_pow_floor 2" unfolding pi_pow_floor_def eq by (simp add: le_floor_iff)
  have "pi * pi < 4 * 4" using pi_less_4 by (intro mult_strict_mono) auto
  then show "pi_pow_floor 2 \<le> 15" unfolding pi_pow_floor_def eq by (simp add: floor_le_iff)
qed

lemma pi_pow_floor_3: "pi_pow_floor 3 \<le> 63"
proof -
  have eq: "pi powr real_of_int 3 = pi * pi * pi" by (simp add: power3_eq_cube)
  have "pi * pi < 4 * 4" using pi_less_4 by (intro mult_strict_mono) auto
  then have "pi * pi * pi < (4 * 4) * 4" using pi_less_4 by (intro mult_strict_mono) auto
  then show ?thesis unfolding pi_pow_floor_def eq by (simp add: floor_le_iff)
qed

lemma dimension_search_ge: "d \<le> dimension_search n d"
proof (induction n d rule: dimension_search.induct)
  case (1 n d)
  show ?case
  proof (cases "n \<le> pi_pow_floor d \<or> d + 1 > 100")
    case True
    then show ?thesis by (subst dimension_search.simps) auto
  next
    case False
    then have "d + 1 \<le> dimension_search n (d + 1)" using 1 by simp
    then show ?thesis using False by (subst dimension_search.simps) auto
  qed
qed

lemma dimension_7: "get_dimension_for_number 7 = 2"
proof -
  have "dimension_search 7 2 = 2"
    using pi_pow_floor_2(1) by (subst dimension_search.simps) simp
  then have "dimension_search 7 1 = 2"
    by (subst dimension_search.simps) (simp add: pi_pow_floor_1)
  then show ?thesis by (simp add: get_dimension_for_number_def)
qed

lemma dimension_large:
  assumes "64 \<le> n"
  shows "3 < get_dimension_for_number n"
proof -
  have "4 \<le> dimension_search n 4" by (rule dimension_search_ge)
  moreover have "dimension_search n 3 = dimension_search n 4"
    using assms pi_pow_floor_3 by (subst dimension_search.simps) simp
  moreover have "dimension_search n 2 = dimension_search n 3"
    using assms pi_pow_floor_2(2) by (subst dimension_search.simps) simp
  moreover have "dimension_search n 1 = dimension_search n 2"
    using assms by (subst dimension_search.simps) (simp add: pi_pow_floor_1)
  ultimately show ?thesis using assms by (simp add: get_dimension_for_number_def)
qed

lemma fold_insert_if:
  "fold (\<lambda>i s. if P i then insert i s else s) xs s0 = s0 \<union> {i \<in> set xs. P i}"
  by (induction xs arbitrary: s0) auto

lemma DART69_FORBIDDEN_eq:
  "DART69_FORBIDDEN = {i. 0 \<le> i \<and> i < 69 \<and> (i mod 3 = 0 \<or> i mod 23 = 0)}"
  by (auto simp: DART69_FORBIDDEN_def fold_insert_if py_range_step1)

lemma dart69_precheck_verdict:
  assumes "5 \<le> n"
  shows "fst (dart69_precheck n) \<longleftrightarrow> odd n \<and> \<not> 3 dvd n"
proof (cases "n mod 2 = 0")
  case True
  then have "even n" by presburger
  then show ?thesis using assms True by (simp add: dart69_precheck_def)
next
  case False
  then have od: "odd n" by presburger
  have m3: "(n mod 69) mod 3 = 0 \<longleftrightarrow> 3 dvd n" by presburger
  have no_exc: "\<not> (get_dimension_for_number n \<le> 3 \<and> n mod 69 = 3)"
  proof
    assume h: "get_dimension_for_number n \<le> 3 \<and> n mod 69 = 3"
    then have "n < 64" using dimension_large[of n] by force
    then have "n = 3" using h assms by presburger
    then show False using assms by simp
  qed
  have "is_forbidden_position (n mod 69) (get_dimension_for_number n \<le> 3) \<longleftrightarrow> 3 dvd n"
    using no_exc m3 by (auto simp: is_forbidden_position_def)
  then show ?thesis using assms False od
    by (simp add: dart69_precheck_def Let_def get_dart69_position_def)
qed

lemma position_opt_range: "0 \<le> get_dart69_position_opt n \<and> get_dart69_position_opt n < 69"
  by (simp add: get_dart69_position_opt_def Let_def split: prod.splits)

lemma dart69_precheck_opt_verdict:
  "fst (dart69_precheck_opt n) \<longleftrightarrow>
     \<not> 3 dvd get_dart69_position_opt n \<and> \<not> 23 dvd get_dart69_position_opt n"
  using position_opt_range[of n]
  by (auto simp: dart69_precheck_opt_def Let_def DART69_FORBIDDEN_eq dvd_eq_mod_eq_0)

lemma position_opt_7: "get_dart69_position_opt 7 = 3"
  by (simp add: get_dart69_position_opt_def Let_def dimension_7 get_dimension_range_def
      pi_pow_floor_1)

section \<open>The claims\<close>

text \<open>
  C1. For every integer \<open>n \<ge> 0\<close> the sieve of Eratosthenes returns exactly the primes of
  \<open>[0, n]\<close> in ascending order, and from \<open>n = 2\<close> on (below, no table is built) its table
  has \<open>n + 1\<close> entries and marks index \<open>k\<close> as prime if and only if \<open>k\<close> is prime, for
  every \<open>k\<close> in \<open>[0, n]\<close>. \<open>int(n ** 0.5)\<close> is taken as the exact integer square root.
\<close>

theorem sieve_marks_exactly_primes:
  "0 \<le> n \<Longrightarrow>
     sieve_of_eratosthenes n = filter is_prime_number [0..n] \<and>
     (\<forall>k\<in>{0..n}. k \<in> set (sieve_of_eratosthenes n) \<longleftrightarrow> is_prime_number k) \<and>
     (2 \<le> n \<longrightarrow> length (sieve_table n) = nat (n + 1) \<and>
        (\<forall>k\<in>{0..n}. sieve_table n ! nat k \<longleftrightarrow> is_prime_number k))"
  by (auto simp: sieve_of_eratosthenes_eq sieve_table_length sieve_table_prime)

theorem sieve_marks_exactly_primes_witness:
  "(0::int) \<le> 10 \<and> sieve_of_eratosthenes 10 = [2, 3, 5, 7] \<and>
   filter is_prime_number [0..10] = [2, 3, 5, 7] \<and>
   (7 \<in> {0..10::int} \<and> sieve_table 10 ! nat 7 \<and> is_prime_number 7) \<and>
   (9 \<in> {0..10::int} \<and> \<not> sieve_table 10 ! nat 9 \<and> \<not> is_prime_number 9)"
proof -
  have a: "sieve_of_eratosthenes 10 = [2, 3, 5, 7]" by code_simp
  have b: "sieve_table 10 ! nat 7" "\<not> sieve_table 10 ! nat 9" by code_simp+
  have h: "(0::int) \<le> 10" by simp
  note t = sieve_marks_exactly_primes[OF h]
  from t have c: "filter is_prime_number [0..10] = [2, 3, 5, 7]" using a by simp
  from t have "\<forall>k\<in>{0..10}. sieve_table 10 ! nat k \<longleftrightarrow> is_prime_number k" by simp
  then have x: "\<And>k. k \<in> {0..10} \<Longrightarrow> sieve_table 10 ! nat k \<longleftrightarrow> is_prime_number k"
    by blast
  have "sieve_table 10 ! nat 7 \<longleftrightarrow> is_prime_number 7"
    "sieve_table 10 ! nat 9 \<longleftrightarrow> is_prime_number 9" by (rule x, simp)+
  then show ?thesis using a b c by simp
qed

text \<open>
  C2. The claim is right and the sieve is not: a prime that passes the residue test is
  left out. \<open>sieve_dimension(1)\<close> scans \<open>[2, 3]\<close>; the test of the code itself answers that
  2 is prime, and the sector \<open>2 mod 69\<close> is a multiple neither of 3 nor of 23, so 2 passes
  the residue test of the filter; the last-digit test then rejects it, and the list
  returned is \<open>[3]\<close>.
\<close>

theorem sieve_dimension_omits_prime_2:
  "get_dimension_range_sieve 1 = (2, 3) \<and>
   is_prime_basic 2 = Inr True \<and>
   \<not> ((2 mod 69) mod 3 = (0::int) \<or> (2 mod 69) mod 23 = (0::int)) \<and>
   \<not> dart69_filter 2 \<and>
   2 \<notin> set (sieve_dimension (\<lambda>n. is_prime_basic n = Inr True) 1)"
proof -
  have r: "get_dimension_range_sieve 1 = (2, 3)" by (simp add: get_dimension_range_sieve_def)
  have a: "is_prime_basic 2 = Inr True" by (simp add: is_prime_basic_def)
  have b: "\<not> dart69_filter 2" by (simp add: dart69_filter_def)
  have "2 \<notin> set (sieve_dimension_scan (\<lambda>n. is_prime_basic n = Inr True) 2 3)"
    using b by (simp add: sieve_dimension_scan_eq)
  then show ?thesis using r a b by (simp add: sieve_dimension_def)
qed

text \<open>
  C3, as stated: a number is excluded exactly when \<open>n mod 69\<close> lies in the forbidden set.
  The optimized checker, which owns the table \<open>DART69_FORBIDDEN\<close>, excludes 7 although
  \<open>7 mod 69 = 7\<close> is not in the table: the position it looks up is \<open>(7 - 4) mod 69 = 3\<close>,
  counted from the start of the dimension.
\<close>

theorem optimized_classifier_counterexample:
  "(7::int) mod 69 \<notin> DART69_FORBIDDEN \<and> dart69_precheck_opt 7 = (False, 3)"
proof -
  have "(3::int) \<in> DART69_FORBIDDEN" "(7::int) \<notin> DART69_FORBIDDEN"
    by (simp_all add: DART69_FORBIDDEN_eq)
  then show ?thesis by (simp add: dart69_precheck_opt_def Let_def position_opt_7)
qed

text \<open>
  C3, amended. The filters are the fixed sets of the code, and each classifier tests its
  own position. For every integer \<open>n\<close>, negative ones included: the position of the checker
  is the remainder \<open>n mod 69\<close>, in \<open>[0, 69)\<close>, and \<open>is_forbidden_position\<close> holds of it
  exactly when it is a multiple of 3 (3 itself left out when the early exceptions are
  allowed); the position of the optimized checker is \<open>(n - start) mod 69\<close>, with \<open>start\<close>
  the first number of the dimension of \<open>n\<close>, also in \<open>[0, 69)\<close>, and its precheck excludes
  \<open>n\<close> exactly when that position lies in \<open>DART69_FORBIDDEN\<close>, the multiples of 3 or of 23
  below 69.
\<close>

theorem classify_by_position:
  "get_dart69_position n = n mod 69 \<and>
   0 \<le> get_dart69_position n \<and> get_dart69_position n < 69 \<and>
   (is_forbidden_position (get_dart69_position n) False \<longleftrightarrow>
      n mod 69 \<in> {r. 0 \<le> r \<and> r < 69 \<and> r mod 3 = 0}) \<and>
   (is_forbidden_position (get_dart69_position n) True \<longleftrightarrow>
      n mod 69 \<in> {r. 0 \<le> r \<and> r < 69 \<and> r mod 3 = 0} - {3}) \<and>
   DART69_FORBIDDEN = {r. 0 \<le> r \<and> r < 69 \<and> (r mod 3 = 0 \<or> r mod 23 = 0)} \<and>
   get_dart69_position_opt n = (n - fst (get_dimension_range (get_dimension_for_number n))) mod 69 \<and>
   0 \<le> get_dart69_position_opt n \<and> get_dart69_position_opt n < 69 \<and>
   (fst (dart69_precheck_opt n) = False \<longleftrightarrow> get_dart69_position_opt n \<in> DART69_FORBIDDEN) \<and>
   snd (dart69_precheck_opt n) = get_dart69_position_opt n"
proof -
  have r: "0 \<le> n mod 69" "n mod 69 < 69" by simp_all
  have a: "is_forbidden_position (n mod 69) False \<longleftrightarrow> (n mod 69) mod 3 = 0"
    by (simp add: is_forbidden_position_def)
  have "(23::int) mod 3 \<noteq> 0" by simp
  then have b: "is_forbidden_position (n mod 69) True \<longleftrightarrow> (n mod 69) mod 3 = 0 \<and> n mod 69 \<noteq> 3"
    by (auto simp: is_forbidden_position_def)
  have c: "get_dart69_position_opt n
      = (n - fst (get_dimension_range (get_dimension_for_number n))) mod 69"
    by (simp add: get_dart69_position_opt_def Let_def split: prod.splits)
  have d: "fst (dart69_precheck_opt n) = False \<longleftrightarrow> get_dart69_position_opt n \<in> DART69_FORBIDDEN"
    "snd (dart69_precheck_opt n) = get_dart69_position_opt n"
    by (simp_all add: dart69_precheck_opt_def Let_def)
  have e: "get_dart69_position n = n mod 69 \<and>
   0 \<le> get_dart69_position n \<and> get_dart69_position n < 69 \<and>
   (is_forbidden_position (get_dart69_position n) False \<longleftrightarrow>
      n mod 69 \<in> {r. 0 \<le> r \<and> r < 69 \<and> r mod 3 = 0}) \<and>
   (is_forbidden_position (get_dart69_position n) True \<longleftrightarrow>
      n mod 69 \<in> {r. 0 \<le> r \<and> r < 69 \<and> r mod 3 = 0} - {3})"
    using r a b by (simp add: get_dart69_position_def)
  have f: "DART69_FORBIDDEN = {r. 0 \<le> r \<and> r < 69 \<and> (r mod 3 = 0 \<or> r mod 23 = 0)}"
    by (rule DART69_FORBIDDEN_eq)
  have g: "0 \<le> get_dart69_position_opt n" "get_dart69_position_opt n < 69"
    using position_opt_range[of n] by simp_all
  from e f c g d show ?thesis by (intro conjI) (elim conjE, assumption)+
qed

theorem classify_by_position_witness:
  "get_dart69_position (- 1) = 68 \<and> \<not> is_forbidden_position (get_dart69_position (- 1)) False \<and>
   get_dart69_position 69 = 0 \<and> is_forbidden_position (get_dart69_position 69) False \<and>
   get_dart69_position 70 = 1 \<and> \<not> is_forbidden_position (get_dart69_position 70) False \<and>
   \<not> is_forbidden_position (get_dart69_position 3) True \<and>
   get_dart69_position_opt 7 = 3 \<and> 3 \<in> DART69_FORBIDDEN \<and> fst (dart69_precheck_opt 7) = False"
proof -
  note c2 = conjunct2
  have a: "get_dart69_position (- 1) = 68" "\<not> is_forbidden_position (get_dart69_position (- 1)) False"
    using classify_by_position[of "- 1", THEN conjunct1]
      classify_by_position[of "- 1", THEN c2, THEN c2, THEN c2, THEN conjunct1]
    by simp_all
  have b: "get_dart69_position 69 = 0" "is_forbidden_position (get_dart69_position 69) False"
    using classify_by_position[of 69, THEN conjunct1]
      classify_by_position[of 69, THEN c2, THEN c2, THEN c2, THEN conjunct1]
    by simp_all
  have c: "get_dart69_position 70 = 1" "\<not> is_forbidden_position (get_dart69_position 70) False"
    using classify_by_position[of 70, THEN conjunct1]
      classify_by_position[of 70, THEN c2, THEN c2, THEN c2, THEN conjunct1]
    by simp_all
  have d: "\<not> is_forbidden_position (get_dart69_position 3) True"
    using classify_by_position[of 3, THEN c2, THEN c2, THEN c2, THEN c2, THEN conjunct1]
    by simp
  have e: "(3::int) \<in> DART69_FORBIDDEN"
    unfolding classify_by_position[of 7, THEN c2, THEN c2, THEN c2, THEN c2, THEN c2, THEN conjunct1]
    by simp
  have f: "fst (dart69_precheck_opt 7) = False"
    using classify_by_position[of 7, THEN c2, THEN c2, THEN c2, THEN c2, THEN c2, THEN c2,
        THEN c2, THEN c2, THEN c2, THEN conjunct1] e
    by (simp add: position_opt_7)
  from a b c d position_opt_7 e f show ?thesis by (intro conjI)
qed

text \<open>
  C4, as stated: the fallback agrees with primality for every integer \<open>n \<ge> 0\<close>. It takes
  the root in double precision: at the odd number \<open>2 ^ 1024 + 1\<close>, not a multiple of 3, each
  of the three tests raises \<open>OverflowError\<close> instead of returning.
\<close>

theorem fallback_overflow_counterexample:
  "is_prime_fast (2 ^ 1024 + 1) = Inl OverflowError \<and>
   trial_division (2 ^ 1024 + 1) = Inl OverflowError \<and>
   is_prime_basic (2 ^ 1024 + 1) = Inl OverflowError"
proof -
  have "is_prime_fast (2 ^ 1024 + 1) = Inl OverflowError" by code_simp
  moreover have "trial_division (2 ^ 1024 + 1) = Inl OverflowError" by code_simp
  moreover have "is_prime_basic (2 ^ 1024 + 1) = Inl OverflowError" by code_simp
  ultimately show ?thesis by (intro conjI)
qed

text \<open>
  C4, amended. The single-number fallback tests (\<open>is_prime_fast\<close> without gmpy2,
  \<open>_trial_division\<close> and \<open>is_prime_basic\<close>) return false below 2, true at 2 and false at
  every even number above 2, for every integer. For every \<open>n\<close> below \<open>2 ^ 52\<close>, where the
  root in double precision is the exact one, they return at an odd number from 3 on true
  exactly when no odd \<open>d\<close> with \<open>3 \<le> d \<le> \<lfloor>\<surd>n\<rfloor>\<close> divides it, and each of them agrees
  exactly with primality.
\<close>

theorem trial_division_fallback_exact:
  "\<forall>f \<in> set [is_prime_fast, trial_division, is_prime_basic].
     (n < 2 \<longrightarrow> f n = Inr False) \<and>
     (n = 2 \<longrightarrow> f n = Inr True) \<and>
     (2 < n \<and> even n \<longrightarrow> f n = Inr False) \<and>
     (3 \<le> n \<and> odd n \<and> n < 2 ^ 52 \<longrightarrow>
        (f n = Inr True \<longleftrightarrow> \<not> (\<exists>d. odd d \<and> 3 \<le> d \<and> d \<le> isqrt n \<and> d dvd n))) \<and>
     (n < 2 ^ 52 \<longrightarrow> f n = Inr (is_prime_number n))"
proof
  fix f
  assume "f \<in> set [is_prime_fast, trial_division, is_prime_basic]"
  then consider "f = is_prime_fast" | "f = trial_division" | "f = is_prime_basic" by auto
  then show "(n < 2 \<longrightarrow> f n = Inr False) \<and>
     (n = 2 \<longrightarrow> f n = Inr True) \<and>
     (2 < n \<and> even n \<longrightarrow> f n = Inr False) \<and>
     (3 \<le> n \<and> odd n \<and> n < 2 ^ 52 \<longrightarrow>
        (f n = Inr True \<longleftrightarrow> \<not> (\<exists>d. odd d \<and> 3 \<le> d \<and> d \<le> isqrt n \<and> d dvd n))) \<and>
     (n < 2 ^ 52 \<longrightarrow> f n = Inr (is_prime_number n))"
  proof cases
    case 1
    have "n < 2 \<Longrightarrow> f n = Inr False" "n = 2 \<Longrightarrow> f n = Inr True"
      "2 < n \<Longrightarrow> n mod 2 = 0 \<Longrightarrow> f n = Inr False"
      unfolding 1 by (simp_all add: is_prime_fast_def)
    moreover have "n < 2 ^ 53 \<Longrightarrow> f n = Inr (is_prime_number n)"
      unfolding 1 is_prime_fast_eq by (rule trial_division_small)
    ultimately show ?thesis by (rule fallback_props)
  next
    case 2
    have "n < 2 \<Longrightarrow> f n = Inr False" "n = 2 \<Longrightarrow> f n = Inr True"
      "2 < n \<Longrightarrow> n mod 2 = 0 \<Longrightarrow> f n = Inr False"
      unfolding 2 by (simp_all add: trial_division_def)
    moreover have "n < 2 ^ 53 \<Longrightarrow> f n = Inr (is_prime_number n)"
      unfolding 2 by (rule trial_division_small)
    ultimately show ?thesis by (rule fallback_props)
  next
    case 3
    have "n < 2 \<Longrightarrow> f n = Inr False" "n = 2 \<Longrightarrow> f n = Inr True"
      "2 < n \<Longrightarrow> n mod 2 = 0 \<Longrightarrow> f n = Inr False"
      unfolding 3 by (simp_all add: is_prime_basic_def)
    moreover have "n < 2 ^ 53 \<Longrightarrow> f n = Inr (is_prime_number n)"
      unfolding 3 by (rule is_prime_basic_small)
    ultimately show ?thesis by (rule fallback_props)
  qed
qed

theorem trial_division_fallback_exact_witness:
  "is_prime_fast 2 = Inr True \<and> trial_division 1 = Inr False \<and> is_prime_basic 10 = Inr False \<and>
   (3 \<le> (35::int) \<and> odd (35::int) \<and> (35::int) < 2 ^ 52 \<and> is_prime_basic 35 = Inr False \<and>
      (\<exists>d. odd d \<and> 3 \<le> d \<and> d \<le> isqrt 35 \<and> d dvd 35)) \<and>
   ((37::int) < 2 ^ 52 \<and> is_prime_basic 37 = Inr True \<and> is_prime_number 37)"
proof -
  have a: "is_prime_basic 37 = Inr True" "is_prime_basic 35 = Inr False" by code_simp+
  have b: "(35::int) < 2 ^ 52" "(37::int) < 2 ^ 52" by simp_all
  show ?thesis
    using trial_division_fallback_exact[of 2] trial_division_fallback_exact[of 1]
      trial_division_fallback_exact[of 10] trial_division_fallback_exact[of 35]
      trial_division_fallback_exact[of 37] a b
    by auto
qed

text \<open>
  C5. The claim is right and the sieve is not: the scan does not return every prime of its
  range. \<open>sieve_dimension(1)\<close> scans \<open>[2, 3]\<close>, both of which its own primality test answers
  true for, and returns \<open>[3]\<close>: the last-digit test of the filter has no exemption for 2
  (nor for 5). The same loop, run on the range \<open>[0, 20]\<close> of the claim, returns
  \<open>[3, 7, 11, 13, 17, 19]\<close>.
\<close>

theorem sieve_dimension_1_returns_only_3:
  "get_dimension_range_sieve 1 = (2, 3) \<and>
   filter (\<lambda>n. is_prime_basic n = Inr True) [2..3] = [2, 3] \<and>
   sieve_dimension (\<lambda>n. is_prime_basic n = Inr True) 1 = [3] \<and>
   sieve_dimension_scan (\<lambda>n. is_prime_basic n = Inr True) 0 20 = [3, 7, 11, 13, 17, 19]"
proof -
  have r: "get_dimension_range_sieve 1 = (2, 3)" by (simp add: get_dimension_range_sieve_def)
  have a: "filter (\<lambda>n. is_prime_basic n = Inr True) [2..3] = [2, 3]" by code_simp
  have "sieve_dimension_scan (\<lambda>n. is_prime_basic n = Inr True) 2 3 = [3]" by code_simp
  then have b: "sieve_dimension (\<lambda>n. is_prime_basic n = Inr True) 1 = [3]"
    by (simp add: sieve_dimension_def r)
  have c: "sieve_dimension_scan (\<lambda>n. is_prime_basic n = Inr True) 0 20 = [3, 7, 11, 13, 17, 19]"
    by code_simp
  from r a b c show ?thesis by (intro conjI)
qed

text \<open>
  C6, as stated: \<open>is_prime(-5)\<close> fails with \<open>InvalidInput\<close>. It does not: the call returns
  \<open>False\<close>, here for the suite built with the default bound.
\<close>

theorem is_prime_negative_counterexample:
  "is_prime_call (init_suite 1000000) (- 5) = Inr False \<and>
   is_prime_call (init_suite 1000000) (- 5) \<noteq> Inl InvalidInput"
proof -
  have "(- 5 :: int) < 2 ^ 53" by simp
  then have "is_prime_call (init_suite 1000000) (- 5) = Inr (is_prime_number (- 5))"
    by (rule is_prime_call_small)
  then show ?thesis by (simp add: is_prime_number_def)
qed

text \<open>
  C6, amended. The sieve returns the empty list for \<open>n = 0\<close> and \<open>n = 1\<close>; whatever bound
  the suite was built with, \<open>is_prime(2)\<close> returns true, \<open>is_prime(1)\<close> returns false and
  \<open>is_prime(-5)\<close> returns false: no error is raised.
\<close>

theorem boundary_behaviour:
  "sieve_of_eratosthenes 0 = [] \<and> sieve_of_eratosthenes 1 = [] \<and>
   is_prime_call (init_suite m) 2 = Inr True \<and>
   is_prime_call (init_suite m) 1 = Inr False \<and>
   is_prime_call (init_suite m) (- 5) = Inr False"
proof -
  have "is_prime_call (init_suite m) 2 = Inr (is_prime_number 2)"
    "is_prime_call (init_suite m) 1 = Inr (is_prime_number 1)"
    "is_prime_call (init_suite m) (- 5) = Inr (is_prime_number (- 5))"
    by (rule is_prime_call_small, simp)+
  moreover have "is_prime_number 2" "\<not> is_prime_number 1" "\<not> is_prime_number (- 5)"
    by (simp_all add: is_prime_number_def)
  ultimately show ?thesis by (simp add: sieve_of_eratosthenes_def)
qed

theorem boundary_behaviour_witness:
  "sieve_of_eratosthenes 0 = [] \<and> sieve_of_eratosthenes 1 = [] \<and>
   is_prime_call (init_suite 10) 2 = Inr True \<and>
   is_prime_call (init_suite 10) 1 = Inr False \<and>
   is_prime_call (init_suite 10) (- 5) = Inr False"
  using boundary_behaviour[of 10] .

text \<open>
  C7, as stated: a query with \<open>k > n\<close> or \<open>k < 0\<close> fails with \<open>OutOfRange\<close>. It does not:
  with the table built for 10, the query for 11 returns true and the query for -1 returns
  false.
\<close>

theorem is_prime_beyond_bound_counterexample:
  "is_prime_call (init_suite 10) 11 = Inr True \<and>
   is_prime_call (init_suite 10) 11 \<noteq> Inl OutOfRange \<and>
   is_prime_call (init_suite 10) (- 1) = Inr False \<and>
   is_prime_call (init_suite 10) (- 1) \<noteq> Inl OutOfRange"
proof -
  have "is_prime_call (init_suite 10) 11 = Inr (is_prime_number 11)"
    "is_prime_call (init_suite 10) (- 1) = Inr (is_prime_number (- 1))"
    by (rule is_prime_call_small, simp)+
  moreover have "is_prime_number 11" by code_simp
  moreover have "\<not> is_prime_number (- 1)" by (simp add: is_prime_number_def)
  ultimately show ?thesis by simp
qed

text \<open>
  C7, amended. A query never fails with \<open>OutOfRange\<close>. Below zero \<open>is_prime\<close> returns
  false. Beyond the bound of the table it answers the query itself, by falling back to
  trial division: its outcome is the outcome of \<open>_trial_division\<close>, a boolean for every
  \<open>k\<close> below \<open>2 ^ 52\<close>.
\<close>

theorem is_prime_answers_beyond_bound:
  "is_prime_call self k \<noteq> Inl OutOfRange \<and>
   (k < 0 \<longrightarrow> is_prime_call (init_suite m) k = Inr False) \<and>
   (max_n self < k \<longrightarrow> is_prime_call self k = trial_division k) \<and>
   (max_n self < k \<and> k < 2 ^ 52 \<longrightarrow> (\<exists>b. is_prime_call self k = Inr b))"
proof -
  have a: "k < 0 \<longrightarrow> is_prime_call (init_suite m) k = Inr False"
  proof
    assume k: "k < 0"
    then have "k < 2 ^ 53" by simp
    then have "is_prime_call (init_suite m) k = Inr (is_prime_number k)"
      by (rule is_prime_call_small)
    then show "is_prime_call (init_suite m) k = Inr False" using k by (simp add: is_prime_number_def)
  qed
  have b: "max_n self < k \<longrightarrow> is_prime_call self k = trial_division k"
    by (simp add: is_prime_call_def)
  have c: "max_n self < k \<and> k < 2 ^ 52 \<longrightarrow> (\<exists>b. is_prime_call self k = Inr b)"
  proof
    assume h: "max_n self < k \<and> k < 2 ^ 52"
    then have "k < 2 ^ 53" by simp
    then have "trial_division k = Inr (is_prime_number k)" by (rule trial_division_small)
    then show "\<exists>b. is_prime_call self k = Inr b" using h by (simp add: is_prime_call_def)
  qed
  from is_prime_call_no_out_of_range[of self k] a b c show ?thesis by (intro conjI)
qed

theorem is_prime_answers_beyond_bound_witness:
  "(max_n (init_suite 10) < 11 \<and> (11::int) < 2 ^ 52 \<and>
      is_prime_call (init_suite 10) 11 = trial_division 11 \<and>
      (\<exists>b. is_prime_call (init_suite 10) 11 = Inr b)) \<and>
   ((- 1 :: int) < 0 \<and> is_prime_call (init_suite 10) (- 1) = Inr False)"
proof -
  have a: "max_n (init_suite 10) < 11" by (simp add: init_suite_def)
  have b: "(11::int) < 2 ^ 52" "(- 1 :: int) < 0" by simp_all
  note t = is_prime_answers_beyond_bound[where self = "init_suite 10" and k = 11 and m = 10]
  note u = is_prime_answers_beyond_bound[where self = "init_suite 10" and k = "- 1" and m = 10]
  note c2 = conjunct2
  have c: "is_prime_call (init_suite 10) 11 = trial_division 11"
    using t[THEN c2, THEN c2, THEN conjunct1] a by blast
  have d: "\<exists>b. is_prime_call (init_suite 10) 11 = Inr b"
    using t[THEN c2, THEN c2, THEN c2] a b(1) by blast
  have e: "is_prime_call (init_suite 10) (- 1) = Inr False"
    using u[THEN c2, THEN conjunct1] b(2) by blast
  from a b c d e show ?thesis by (intro conjI)
qed

text \<open>
  C8. For every prime \<open>p\<close>, \<open>dart69_filter\<close> returns true if and only if \<open>p\<close> is neither 2
  nor 5: a sector \<open>p mod 69\<close> divisible by 3 or by 23 forces \<open>p\<close> to be 3 or 23, which the
  angular filter exempts, and the last-digit filter rejects no other prime than 2 and 5.
\<close>

theorem dart69_filter_rejects_only_2_and_5:
  "is_prime_number p \<Longrightarrow>
     (dart69_filter p \<longleftrightarrow> p \<noteq> 2 \<and> p \<noteq> 5) \<and>
     (((p mod 69) mod 3 = 0 \<or> (p mod 69) mod 23 = 0) \<longrightarrow> p = 3 \<or> p = 23)"
proof -
  assume pr: "is_prime_number p"
  have m3: "(p mod 69) mod 3 = 0 \<Longrightarrow> 3 dvd p" by presburger
  have m23: "(p mod 69) mod 23 = 0 \<Longrightarrow> 23 dvd p" by presburger
  have d3: "3 dvd p \<Longrightarrow> p = 3" using prime_divisor[OF pr, of 3] by auto
  have d23: "23 dvd p \<Longrightarrow> p = 23" using prime_divisor[OF pr, of 23] by auto
  have "((p mod 69) mod 3 = 0 \<or> (p mod 69) mod 23 = 0) \<longrightarrow> p = 3 \<or> p = 23"
    using m3 m23 d3 d23 by auto
  then show ?thesis using dart69_filter_prime[OF pr] by (intro conjI)
qed

theorem dart69_filter_rejects_only_2_and_5_witness:
  "(is_prime_number 2 \<and> \<not> dart69_filter 2) \<and> (is_prime_number 5 \<and> \<not> dart69_filter 5) \<and>
   (is_prime_number 3 \<and> dart69_filter 3) \<and> (is_prime_number 23 \<and> dart69_filter 23) \<and>
   (is_prime_number 71 \<and> dart69_filter 71)"
proof -
  have p: "is_prime_number 2" "is_prime_number 5" "is_prime_number 3" "is_prime_number 23"
    "is_prime_number 71" by code_simp+
  show ?thesis
    using dart69_filter_rejects_only_2_and_5[OF p(1)] dart69_filter_rejects_only_2_and_5[OF p(2)]
      dart69_filter_rejects_only_2_and_5[OF p(3)] dart69_filter_rejects_only_2_and_5[OF p(4)]
      dart69_filter_rejects_only_2_and_5[OF p(5)] p
    by simp
qed

text \<open>
  C9. Every element of the list returned by \<open>sieve_dimension\<close>, for every dimension and
  either primality engine, and every element of its scan of any range, ends in 1, 3, 7 or
  9; so 2 and 5 never appear, even when the range holds them (dimension 1 is the range
  \<open>[2, 3]\<close> and returns \<open>[3]\<close>).
\<close>

theorem sieve_dimension_last_digit:
  "(\<forall>p\<in>set (sieve_dimension prime_test dimension).
      p mod 10 \<in> {1, 3, 7, 9} \<and> p \<noteq> 2 \<and> p \<noteq> 5) \<and>
   (\<forall>p\<in>set (sieve_dimension_scan prime_test start_num end_num).
      p mod 10 \<in> {1, 3, 7, 9} \<and> p \<noteq> 2 \<and> p \<noteq> 5)"
proof -
  have "p mod 10 \<in> {1, 3, 7, 9} \<and> p \<noteq> 2 \<and> p \<noteq> 5"
    if "p \<in> set (sieve_dimension_scan prime_test a b)" for p a b
  proof -
    from that have "dart69_filter p" by (simp add: sieve_dimension_scan_eq)
    then have "p mod 10 \<in> {1, 3, 7, 9}" by (rule dart69_filter_digit)
    then show ?thesis by auto
  qed
  then show ?thesis by (auto simp: sieve_dimension_def split: prod.splits)
qed

theorem sieve_dimension_last_digit_witness:
  "get_dimension_range_sieve 1 = (2, 3) \<and>
   sieve_dimension (\<lambda>n. is_prime_basic n = Inr True) 1 = [3] \<and>
   (3 \<in> set (sieve_dimension (\<lambda>n. is_prime_basic n = Inr True) 1) \<and>
      (3::int) mod 10 \<in> {1, 3, 7, 9}) \<and>
   2 \<notin> set (sieve_dimension (\<lambda>n. is_prime_basic n = Inr True) 1) \<and>
   sieve_dimension_scan (\<lambda>n. is_prime_basic n = Inr True) 0 9 = [3, 7] \<and>
   (7 \<in> set (sieve_dimension_scan (\<lambda>n. is_prime_basic n = Inr True) 0 9) \<and>
      (7::int) mod 10 \<in> {1, 3, 7, 9})"
proof -
  have r: "get_dimension_range_sieve 1 = (2, 3)" by (simp add: get_dimension_range_sieve_def)
  have "sieve_dimension_scan (\<lambda>n. is_prime_basic n = Inr True) 2 3 = [3]" by code_simp
  then have a: "sieve_dimension (\<lambda>n. is_prime_basic n = Inr True) 1 = [3]"
    by (simp add: sieve_dimension_def r)
  have b: "sieve_dimension_scan (\<lambda>n. is_prime_basic n = Inr True) 0 9 = [3, 7]" by code_simp
  show ?thesis
    using sieve_dimension_last_digit[of "\<lambda>n. is_prime_basic n = Inr True" 1 0 9] r a b by simp
qed

text \<open>
  C10, as stated: from 5 on, the precheck of the checker and the precheck of the optimized
  checker return the same verdict. They do not: at 7 the first answers that 7 could be
  prime, and the second, which counts the position from the start of the dimension
  (\<open>7 - 4 = 3\<close>), answers that it cannot.
\<close>

theorem prechecks_disagree_counterexample:
  "(5::int) \<le> 7 \<and> dart69_precheck 7 = (True, 7) \<and> dart69_precheck_opt 7 = (False, 3) \<and>
   fst (dart69_precheck 7) \<noteq> fst (dart69_precheck_opt 7)"
proof -
  have "\<not> is_forbidden_position 7 (get_dimension_for_number 7 \<le> 3)"
    by (simp add: is_forbidden_position_def)
  then have a: "dart69_precheck 7 = (True, 7)"
    by (simp add: dart69_precheck_def Let_def get_dart69_position_def)
  have "(3::int) \<in> DART69_FORBIDDEN" by (simp add: DART69_FORBIDDEN_eq)
  then have b: "dart69_precheck_opt 7 = (False, 3)"
    by (simp add: dart69_precheck_opt_def Let_def position_opt_7)
  show ?thesis using a b by simp
qed

text \<open>
  C10, amended. From 5 on, the precheck of the checker answers "could be prime" exactly for
  the odd numbers that are not multiples of 3 (the exemption of positions 3 and 23 never
  applies there), and the precheck of the optimized checker answers it exactly when the
  position \<open>(n - start) mod 69\<close>, counted from the first number of the dimension of \<open>n\<close>, is
  a multiple neither of 3 nor of 23.
\<close>

theorem prechecks_verdicts:
  "5 \<le> n \<Longrightarrow>
     (fst (dart69_precheck n) \<longleftrightarrow> odd n \<and> \<not> 3 dvd n) \<and>
     get_dart69_position_opt n =
       (n - (pi_pow_floor (get_dimension_for_number n - 1) + 1)) mod 69 \<and>
     (fst (dart69_precheck_opt n) \<longleftrightarrow>
        \<not> 3 dvd get_dart69_position_opt n \<and> \<not> 23 dvd get_dart69_position_opt n)"
proof -
  assume n: "5 \<le> n"
  have "get_dart69_position_opt n =
       (n - (pi_pow_floor (get_dimension_for_number n - 1) + 1)) mod 69"
    by (simp add: get_dart69_position_opt_def Let_def get_dimension_range_def)
  then show ?thesis
    using dart69_precheck_verdict[OF n] dart69_precheck_opt_verdict[of n] by (intro conjI)
qed

theorem prechecks_verdicts_witness:
  "(5::int) \<le> 7 \<and> (fst (dart69_precheck 7) \<and> odd (7::int) \<and> \<not> 3 dvd (7::int)) \<and>
   get_dart69_position_opt 7 = 3 \<and> \<not> fst (dart69_precheck_opt 7)"
proof -
  have h: "(5::int) \<le> 7" by simp
  show ?thesis using prechecks_verdicts[OF h] by (simp add: position_opt_7)
qed

end
